theory Spec2Isabelle
  imports Complex_Main "HOL-Library.AList"
begin

section \<open>Data model of the planar curve database\<close>

text \<open>
  Identities are numbers: \<open>name\<close> is a \<open>c3d.SimpleName\<close> (a user curve or a fragment
  in the geometry store), \<open>curve2d_id\<close> is what \<open>curve.Id()\<close> returns for a planar curve,
  and a placement is a handle of a \<open>c3d.Placement3D\<close> object.  Curve parameters are
  JavaScript numbers, that is doubles; a parameter is modelled as the real number the
  double denotes.  Comparing two doubles is comparing these reals.  The one arithmetic
  operation the database performs on parameters is the subtraction \<open>start - stop\<close>,
  which rounds; it is kept apart as a function of its own (\<open>subtract\<close> below).
\<close>

type_synonym name = nat
type_synonym curve2d_id = nat
type_synonym placement3d = nat

text \<open>What the code asks of a planar \<open>c3d.Curve\<close>: \<open>Id()\<close>, \<open>IsA() === Contour\<close>,
  \<open>GetCornerParams()\<close>, \<open>IsClosed()\<close>, \<open>IsBounded()\<close>, \<open>GetTMin()\<close>, \<open>GetTMax()\<close>.\<close>

record curve =
  Id :: curve2d_id
  IsContour :: bool
  CornerParams :: "real list"
  IsClosed :: bool
  IsBounded :: bool
  TMin :: real
  TMax :: real

text \<open>\<open>c3d.PointOnCurve(t, curve)\<close> and \<open>c3d.CrossPoint(point, on1, on2)\<close>; the cartesian
  point of a cross is never read by the database.\<close>

record point_on =
  t :: real
  on_curve :: curve

record cross_point =
  on1 :: point_on
  on2 :: point_on

text \<open>\<open>PointOnCurve\<close> and \<open>Joint\<close> of the contour manager, as \<open>addJoint\<close> builds them.
  The identity stored in a \<open>PointOnCurve\<close> is the result of a \<open>Map.get\<close>, which may be
  \<open>undefined\<close>.\<close>

record PointOnCurve =
  poc_name :: "name option"
  poc_t :: real
  poc_tmin :: real
  poc_tmax :: real

record Joint =
  joint_on1 :: PointOnCurve
  joint_on2 :: PointOnCurve

text \<open>\<open>CurveInfo\<close>: the fields the database reads and writes.  \<open>touched\<close> is a JavaScript
  \<open>Set\<close>, kept as a duplicate-free list in insertion order; \<open>fragments\<close> holds the
  store identities the fragment promises resolve to.\<close>

record CurveInfo =
  planarCurve :: nat
  placement :: placement3d
  touched :: "name list"
  fragments :: "name list"
  joints_start :: "Joint option"
  joints_stop :: "Joint option"

definition new_CurveInfo :: "nat \<Rightarrow> placement3d \<Rightarrow> CurveInfo" where
  "new_CurveInfo c p =
     \<lparr>planarCurve = c, placement = p, touched = [], fragments = [],
      joints_start = None, joints_stop = None\<rparr>"

text \<open>A piece of planar curve handed to the store: the whole curve, or
  \<open>curve.Trimmed(start, stop, 1)\<close>.\<close>

datatype piece = Whole curve | Trimmed curve real real

record Trim =
  trimmed :: piece
  start :: real
  stop :: real

text \<open>The geometry store, as far as the database writes it: the automatic fragment
  instances, each with the provenance \<open>befragment(start, stop, instance)\<close> records, and
  the next identity \<open>addItem\<close> hands out.\<close>

record fragment_item =
  item_placement :: placement3d
  item_piece :: piece
  item_start :: real
  item_stop :: real
  item_owner :: name

record geometry_store =
  items :: "(name \<times> fragment_item) list"
  next_simpleName :: name

text \<open>The database.  A JavaScript \<open>Map\<close> is an association list in insertion order:
  \<open>get\<close> is \<open>map_of\<close>, \<open>set\<close> is \<open>AList.update\<close> (overwrite in place, else append),
  \<open>delete\<close> is \<open>AList.delete\<close>.

  The database never removes a fragment from the store in its own synchronous code: it
  registers a callback on the promise of the fragment (\<open>fragment.then(...)\<close>), and the
  callback calls \<open>db.removeItem\<close>.  \<open>pending\<close> holds, in the order of registration, the
  fragments whose callback is registered and has not run yet.\<close>

record database =
  curve2info :: "(name \<times> CurveInfo) list"
  id2planarCurve :: "(nat \<times> curve) list"
  placements :: "placement3d list"
  counter :: nat
  db :: geometry_store
  pending :: "name list"

record Transaction =
  dirty :: "name list"
  deleted :: "name list"
  added :: "name list"

text \<open>\<open>TypeError\<close>: a property of \<open>undefined\<close> is read or written.
  \<open>InvalidPrecondition\<close>: the geometry store is asked for the item of an identity
  that is \<open>undefined\<close>.\<close>

datatype error = TypeError | InvalidPrecondition

text \<open>\<open>Set.prototype.add\<close>: keeps the first insertion.\<close>

definition set_add :: "'a \<Rightarrow> 'a list \<Rightarrow> 'a list" where
  "set_add x xs = (if x \<in> set xs then xs else xs @ [x])"

definition new_Transaction :: Transaction where
  "new_Transaction = \<lparr>dirty = [], deleted = [], added = []\<rparr>"

section \<open>Lookup\<close>

text \<open>\<open>lookup\<close> returns \<open>this.curve2info.get(simpleName)!\<close>.  The \<open>!\<close> is erased when
  the TypeScript is compiled, so the call returns whatever \<open>Map.get\<close> does: the entry,
  or \<open>undefined\<close> (\<open>None\<close>).  An outcome is a returned value or a thrown error.\<close>

datatype 'a outcome = Returns 'a | Throws error

definition lookup :: "database \<Rightarrow> name \<Rightarrow> CurveInfo option outcome" where
  "lookup d simpleName = Returns (map_of (curve2info d) simpleName)"

section \<open>Tearing down a registry entry\<close>

text \<open>\<open>db.removeItem\<close> takes one item out of the store.\<close>

definition removeItem :: "name \<Rightarrow> geometry_store \<Rightarrow> geometry_store" where
  "removeItem x s = s\<lparr>items := AList.delete x (items s)\<rparr>"

text \<open>The registered callbacks run once the synchronous code that registered them has
  returned and the promises of their fragments are resolved, in the order of
  registration: each removes its fragment from the store.  This is what has happened
  when an \<open>await\<close> on the work of the database returns.\<close>

definition settle :: "database \<Rightarrow> database" where
  "settle d = d\<lparr>db := fold removeItem (pending d) (db d), pending := []\<rparr>"

text \<open>\<open>removeInfo\<close>: an identity without an entry is left alone.  Otherwise the entry is
  deleted from \<open>curve2info\<close>, and for each fragment of the entry the callback that
  removes it from the store is registered; the store itself is not written.\<close>

definition removeInfo :: "name \<Rightarrow> database \<Rightarrow> CurveInfo option \<times> database" where
  "removeInfo c d =
     (case map_of (curve2info d) c of
        None \<Rightarrow> (None, d)
      | Some info \<Rightarrow>
          (Some info,
           d\<lparr>curve2info := AList.delete c (curve2info d),
             pending := pending d @ fragments info\<rparr>))"

section \<open>Cascade\<close>

text \<open>The \<open>while (walk.length > 0)\<close> loop of \<open>cascade\<close>: \<open>walk.pop()\<close> takes the last
  element, \<open>curve2info.get(touchee)!.touched\<close> throws a \<open>TypeError\<close> when the entry is
  missing.\<close>

function cascade_walk ::
  "(name \<times> CurveInfo) list \<Rightarrow> name list \<Rightarrow> name list \<Rightarrow> error + name list" where
  "cascade_walk c2i walk visited =
     (if walk = [] then Inr visited
      else let touchee = last walk; rest = butlast walk in
        if touchee \<in> set visited then cascade_walk c2i rest visited
        else (case map_of c2i touchee of
                None \<Rightarrow> Inl TypeError
              | Some info \<Rightarrow>
                  cascade_walk c2i (rest @ touched info) (set_add touchee visited)))"
  by pat_completeness auto
termination
proof (relation "measures [\<lambda>(c2i, walk, visited). card (fst ` set c2i - set visited),
                          \<lambda>(c2i, walk, visited). length walk]", goal_cases)
  case 1
  show ?case by simp
next
  case (2 c2i walk visited touchee rest)
  then show ?case by (cases walk rule: rev_cases) auto
next
  case (3 c2i walk visited touchee rest info)
  then have reg: "touchee \<in> fst ` set c2i" and new: "touchee \<notin> set visited"
    by (auto dest: map_of_SomeD intro: rev_image_eqI)
  have "fst ` set c2i - set (set_add touchee visited)
          \<subset> fst ` set c2i - set visited"
    using reg new by (auto simp: set_add_def)
  then have "card (fst ` set c2i - set (set_add touchee visited))
          < card (fst ` set c2i - set visited)"
    by (intro psubset_card_mono) auto
  then show ?case by simp
qed

definition cascade :: "database \<Rightarrow> name \<Rightarrow> Transaction \<Rightarrow> error + Transaction" where
  "cascade d c transaction =
     (let transaction1 = transaction\<lparr>deleted := set_add c (deleted transaction)\<rparr> in
      case map_of (curve2info d) c of
        None \<Rightarrow> Inr transaction1
      | Some info \<Rightarrow>
          (case cascade_walk (curve2info d) (touched info) (dirty transaction1) of
             Inl e \<Rightarrow> Inl e
           | Inr visited \<Rightarrow> Inr (transaction1\<lparr>dirty := visited\<rparr>)))"

declare cascade_walk.simps [simp del]

text \<open>The \<open>touched\<close> links as a relation between identities, and the condition that no
  registered \<open>touched\<close> set names an identity without a registry entry.\<close>

definition touched_rel :: "(name \<times> CurveInfo) list \<Rightarrow> (name \<times> name) set" where
  "touched_rel c2i = {(a, b). \<exists>info. map_of c2i a = Some info \<and> b \<in> set (touched info)}"

definition touched_closed :: "(name \<times> CurveInfo) list \<Rightarrow> bool" where
  "touched_closed c2i =
     (\<forall>(a, info) \<in> set c2i. \<forall>b \<in> set (touched info). b \<in> fst ` set c2i)"

section \<open>Adding a curve\<close>

text \<open>
  The geometry kernel and the conversion utilities are external collaborators; \<open>add\<close>
  is modelled over an arbitrary kernel.  \<open>curve3d2curve2d\<close> gives the planar curve and
  the best-fit placement of a user curve (after the polyline conversion), or nothing for
  a curve that is not planar; \<open>IntersectWithAll\<close> gives the cross points of a curve with
  a list of candidates.  The arithmetic of the machine is a collaborator as well:
  \<open>subtract\<close> is the subtraction of two doubles, whose result is the exact difference
  rounded to a double.
\<close>

record kernel =
  curve3d2curve2d :: "name \<Rightarrow> (curve \<times> placement3d) option"
  isSamePlacement :: "placement3d \<Rightarrow> placement3d \<Rightarrow> bool"
  IntersectWithAll :: "curve \<Rightarrow> curve list \<Rightarrow> cross_point list"
  subtract :: "real \<Rightarrow> real \<Rightarrow> real"

text \<open>Modelled from the spec: \<open>normalizePlacement\<close> of the conversion utilities is not
  part of the sources.  It returns the first existing placement that is the same
  placement as the candidate; if there is none, the candidate joins the set.\<close>

definition normalizePlacement ::
  "kernel \<Rightarrow> placement3d \<Rightarrow> placement3d list \<Rightarrow> placement3d \<times> placement3d list" where
  "normalizePlacement k candidate existing =
     (case find (isSamePlacement k candidate) existing of
        Some p \<Rightarrow> (p, existing)
      | None \<Rightarrow> (candidate, existing @ [candidate]))"

definition planarizeAndNormalize ::
  "kernel \<Rightarrow> name \<Rightarrow> database \<Rightarrow> ((curve \<times> placement3d) \<times> database) option" where
  "planarizeAndNormalize k curve3d d =
     (case curve3d2curve2d k curve3d of
        None \<Rightarrow> None
      | Some (c, p) \<Rightarrow>
          (case normalizePlacement k p (placements d) of
             (bestExistingPlacement, ps) \<Rightarrow>
               Some ((c, bestExistingPlacement), d\<lparr>placements := ps\<rparr>)))"

text \<open>The loop over \<open>curve2info.entries()\<close> that fills \<open>planar2instance\<close> and
  \<open>allPlanarCurves\<close>; \<open>curve.Id()\<close> throws when \<open>id2planarCurve\<close> has no curve.\<close>

fun collect ::
  "kernel \<Rightarrow> placement3d \<Rightarrow> (nat \<times> curve) list \<Rightarrow> (name \<times> CurveInfo) list
     \<Rightarrow> (curve2d_id \<times> name) list \<times> curve list
     \<Rightarrow> error + ((curve2d_id \<times> name) list \<times> curve list)" where
  "collect k p id2pc [] acc = Inr acc"
| "collect k p id2pc ((simpleName, info) # entries) (planar2instance, allPlanarCurves) =
     (case map_of id2pc (planarCurve info) of
        None \<Rightarrow> Inl TypeError
      | Some c \<Rightarrow>
          collect k p id2pc entries
            (AList.update (Id c) simpleName planar2instance,
             if isSamePlacement k p (placement info) then allPlanarCurves @ [c]
             else allPlanarCurves))"

text \<open>A cross point of a curve with itself at one parameter: the corners of a contour
  and the two ends of a bounded curve are entered as such.\<close>

definition self_cross :: "real \<Rightarrow> curve \<Rightarrow> cross_point" where
  "self_cross param c =
     \<lparr>on1 = \<lparr>t = param, on_curve = c\<rparr>, on2 = \<lparr>t = param, on_curve = c\<rparr>\<rparr>"

definition contour_crosses :: "curve \<Rightarrow> cross_point list" where
  "contour_crosses current =
     (if IsContour current
      then map (\<lambda>param. self_cross param current) (CornerParams current)
           @ (if IsClosed current then [self_cross 0 current] else [])
      else [])"

subsection \<open>Joints\<close>

text \<open>\<open>info.joints.start = joint\<close> or \<open>info.joints.stop = joint\<close> on the entry of an
  identity; a \<open>TypeError\<close> when the identity or its entry is \<open>undefined\<close>.\<close>

definition write_joint ::
  "name option \<Rightarrow> bool \<Rightarrow> Joint \<Rightarrow> (name \<times> CurveInfo) list
     \<Rightarrow> error + (name \<times> CurveInfo) list" where
  "write_joint owner at_start j c2i =
     (case owner of
        None \<Rightarrow> Inl TypeError
      | Some n \<Rightarrow>
          (case map_of c2i n of
             None \<Rightarrow> Inl TypeError
           | Some info \<Rightarrow>
               Inr (AList.update n
                      (if at_start then info\<lparr>joints_start := Some j\<rparr>
                       else info\<lparr>joints_stop := Some j\<rparr>) c2i)))"

definition addJoint ::
  "cross_point \<Rightarrow> (curve2d_id \<times> name) list \<Rightarrow> (name \<times> CurveInfo) list
     \<Rightarrow> error + (name \<times> CurveInfo) list" where
  "addJoint cross planar2instance c2i =
     (let curve1 = on_curve (on1 cross); t1 = t (on1 cross);
          curve2 = on_curve (on2 cross); t2 = t (on2 cross);
          view1simpleName = map_of planar2instance (Id curve1);
          view2simpleName = map_of planar2instance (Id curve2);
          t1min = TMin curve1; t1max = TMax curve1;
          t2min = TMin curve2; t2max = TMax curve2
      in if t1 \<noteq> t1min \<and> t1 \<noteq> t1max then Inr c2i
         else
           let p1 = \<lparr>poc_name = view1simpleName, poc_t = t1, poc_tmin = t1min, poc_tmax = t1max\<rparr>;
               p2 = \<lparr>poc_name = view2simpleName, poc_t = t2, poc_tmin = t2min, poc_tmax = t2max\<rparr>
           in case write_joint view1simpleName (t1 = t1min) \<lparr>joint_on1 = p1, joint_on2 = p2\<rparr> c2i of
                Inl e \<Rightarrow> Inl e
              | Inr c2i1 \<Rightarrow>
                  if t2 = t2min
                  then write_joint view2simpleName True \<lparr>joint_on1 = p2, joint_on2 = p1\<rparr> c2i1
                  else if t2 = t2max
                  then write_joint view2simpleName False \<lparr>joint_on1 = p2, joint_on2 = p1\<rparr> c2i1
                  else Inr c2i1)"

text \<open>The \<open>PointOnCurve\<close> that \<open>addJoint\<close> builds for one side of a cross: the identity
  found for the curve, the parameter and the domain of the curve.\<close>

definition point_of :: "name option \<Rightarrow> point_on \<Rightarrow> PointOnCurve" where
  "point_of n p =
     \<lparr>poc_name = n, poc_t = t p, poc_tmin = TMin (on_curve p), poc_tmax = TMax (on_curve p)\<rparr>"

subsection \<open>The walk over the sorted crosses\<close>

text \<open>\<open>info.touched.add(name)\<close> on the entry fetched before the loop.\<close>

definition touch ::
  "name option \<Rightarrow> name \<Rightarrow> (name \<times> CurveInfo) list \<Rightarrow> error + (name \<times> CurveInfo) list" where
  "touch owner x c2i =
     (case owner of
        None \<Rightarrow> Inl TypeError
      | Some n \<Rightarrow>
          (case map_of c2i n of
             None \<Rightarrow> Inl TypeError
           | Some info \<Rightarrow>
               Inr (AList.update n (info\<lparr>touched := set_add x (touched info)\<rparr>) c2i)))"

text \<open>The literal \<open>10e-6\<close> denotes the double nearest to ten millionths.  That double
  has the significand \<open>5902958103587057\<close> and the exponent \<open>-69\<close>; it lies a little
  above \<open>1 / 100000\<close>.\<close>

definition ten_e_minus_6 :: real where
  "ten_e_minus_6 = 5902958103587057 / 2 ^ 69"

text \<open>The test \<open>Math.abs(start - stop) > 10e-6\<close> that decides whether a span is cut
  out: the rounded difference of the two doubles is compared with the double of the
  literal.\<close>

definition cuttable :: "kernel \<Rightarrow> real \<Rightarrow> real \<Rightarrow> bool" where
  "cuttable k start0 stop0 \<longleftrightarrow> \<bar>subtract k start0 stop0\<bar> > ten_e_minus_6"

text \<open>One pass of the body of \<open>for (const cross of crosses)\<close>.  The state is
  \<open>start\<close>, \<open>trims\<close>, the registry and \<open>curvesToProcess\<close>.\<close>

definition trim_step ::
  "kernel \<Rightarrow> (curve2d_id \<times> name) list \<Rightarrow> name option \<Rightarrow> curve \<Rightarrow> curve2d_id list \<Rightarrow> cross_point
     \<Rightarrow> real \<times> Trim list \<times> (name \<times> CurveInfo) list \<times> (curve2d_id \<times> curve) list
     \<Rightarrow> error + (real \<times> Trim list \<times> (name \<times> CurveInfo) list \<times> (curve2d_id \<times> curve) list)"
  where
  "trim_step k planar2instance owner curve1 visited cross acc =
     (case acc of (start0, trims, c2i, curvesToProcess) \<Rightarrow>
        let stop0 = t (on1 cross); other = on_curve (on2 cross); otherId = Id other in
        case map_of planar2instance otherId of
          None \<Rightarrow> Inl InvalidPrecondition
        | Some x \<Rightarrow>
            (case touch owner x c2i of
               Inl e \<Rightarrow> Inl e
             | Inr c2i1 \<Rightarrow>
                 Inr (stop0,
                      (if cuttable k start0 stop0
                       then trims @ [\<lparr>trimmed = Trimmed curve1 start0 stop0,
                                      start = start0, stop = stop0\<rparr>]
                       else trims),
                      c2i1,
                      (if otherId \<notin> set visited
                       then AList.update otherId other curvesToProcess
                       else curvesToProcess))))"

fun trim_loop ::
  "kernel \<Rightarrow> (curve2d_id \<times> name) list \<Rightarrow> name option \<Rightarrow> curve \<Rightarrow> curve2d_id list \<Rightarrow> cross_point list
     \<Rightarrow> real \<times> Trim list \<times> (name \<times> CurveInfo) list \<times> (curve2d_id \<times> curve) list
     \<Rightarrow> error + (real \<times> Trim list \<times> (name \<times> CurveInfo) list \<times> (curve2d_id \<times> curve) list)"
  where
  "trim_loop k planar2instance owner curve1 visited [] acc = Inr acc"
| "trim_loop k planar2instance owner curve1 visited (cross # crosses) acc =
     (case trim_step k planar2instance owner curve1 visited cross acc of
        Inl e \<Rightarrow> Inl e
      | Inr acc1 \<Rightarrow> trim_loop k planar2instance owner curve1 visited crosses acc1)"

subsection \<open>Replacing the fragments of a curve\<close>

text \<open>Modelled from the spec: the geometry store of the editor is not part of the
  sources.  \<open>db.addItem\<close> returns a promise of the new item; the store hands out the
  next identity, and when the promise is resolved the item is in the store under that
  identity, with the provenance \<open>befragment(start, stop, instance)\<close> has recorded.  The
  database does not look at the store in between, and the model enters the item at the
  call.\<close>

definition addItem :: "fragment_item \<Rightarrow> geometry_store \<Rightarrow> name \<times> geometry_store" where
  "addItem it s =
     (next_simpleName s,
      s\<lparr>items := items s @ [(next_simpleName s, it)],
        next_simpleName := Suc (next_simpleName s)\<rparr>)"

fun add_fragments ::
  "name \<Rightarrow> placement3d \<Rightarrow> Trim list \<Rightarrow> geometry_store \<Rightarrow> name list \<times> geometry_store" where
  "add_fragments instance p [] s = ([], s)"
| "add_fragments instance p (tr # result) s =
     (case addItem \<lparr>item_placement = p, item_piece = trimmed tr, item_start = start tr,
                    item_stop = stop tr, item_owner = instance\<rparr> s of
        (v, s1) \<Rightarrow>
          (case add_fragments instance p result s1 of
             (views, s2) \<Rightarrow> (v # views, s2)))"

text \<open>\<open>updateCurve\<close>: for each fragment the entry holds, the callback that removes it
  from the store is registered; then the new fragments are added and the entry is given
  their identities.\<close>

definition updateCurve ::
  "name \<Rightarrow> Trim list \<Rightarrow> placement3d \<Rightarrow> database \<Rightarrow> error + database" where
  "updateCurve instance result p d =
     (case map_of (curve2info d) instance of
        None \<Rightarrow> Inl TypeError
      | Some info \<Rightarrow>
          (case add_fragments instance p result (db d) of
             (views, s) \<Rightarrow>
               Inr (d\<lparr>curve2info := AList.update instance (info\<lparr>fragments := views\<rparr>) (curve2info d),
                      db := s,
                      pending := pending d @ fragments info\<rparr>)))"

subsection \<open>One curve of the worklist\<close>

text \<open>The crosses of \<open>current\<close> after sorting and after the ends of a bounded open
  curve, or the closing cross of a closed curve, are entered; the two \<open>addJoint\<close> calls
  happen on the way.\<close>

definition bounded_crosses ::
  "curve \<Rightarrow> (curve2d_id \<times> name) list \<Rightarrow> cross_point list \<Rightarrow> (name \<times> CurveInfo) list
     \<Rightarrow> error + (cross_point list \<times> (name \<times> CurveInfo) list)" where
  "bounded_crosses current planar2instance crosses c2i =
     (if IsBounded current \<and> \<not> IsClosed current then
        (case addJoint (hd crosses) planar2instance c2i of
           Inl e \<Rightarrow> Inl e
         | Inr c2i1 \<Rightarrow>
             (case addJoint (last crosses) planar2instance c2i1 of
                Inl e \<Rightarrow> Inl e
              | Inr c2i2 \<Rightarrow>
                  Inr (self_cross (TMin current) current # crosses
                         @ [self_cross (TMax current) current], c2i2)))
      else if IsClosed current then Inr (crosses @ [hd crosses], c2i)
      else Inr (crosses, c2i))"

definition all_crosses :: "kernel \<Rightarrow> curve \<Rightarrow> curve list \<Rightarrow> cross_point list" where
  "all_crosses k current allPlanarCurves =
     IntersectWithAll k current allPlanarCurves @ contour_crosses current"

text \<open>The part of the loop body after \<open>crosses.sort\<close>: \<open>curve1\<close> is the curve of the
  first sorted cross, and \<open>info\<close> is the entry of \<open>planar2instance.get(curve1.Id())\<close>.\<close>

definition split_curve ::
  "kernel \<Rightarrow> placement3d \<Rightarrow> (curve2d_id \<times> name) list \<Rightarrow> name \<Rightarrow> curve
     \<Rightarrow> curve2d_id list \<Rightarrow> (curve2d_id \<times> curve) list \<Rightarrow> database \<Rightarrow> cross_point list
     \<Rightarrow> error + ((curve2d_id \<times> curve) list \<times> database)" where
  "split_curve k p planar2instance view current visited curvesToProcess d crosses1 =
     (case bounded_crosses current planar2instance crosses1 (curve2info d) of
        Inl e \<Rightarrow> Inl e
      | Inr (crosses, c2i) \<Rightarrow>
          (case trim_loop k planar2instance
                  (map_of planar2instance (Id (on_curve (on1 (hd crosses1)))))
                  (on_curve (on1 (hd crosses1))) visited crosses
                  (t (on1 (hd crosses)), [], c2i, curvesToProcess) of
             Inl e \<Rightarrow> Inl e
           | Inr (start1, trims, c2i1, curvesToProcess1) \<Rightarrow>
               (case updateCurve view trims p (d\<lparr>curve2info := c2i1\<rparr>) of
                  Inl e \<Rightarrow> Inl e
                | Inr d1 \<Rightarrow> Inr (curvesToProcess1, d1))))"

definition process_curve ::
  "kernel \<Rightarrow> placement3d \<Rightarrow> (curve2d_id \<times> name) list \<Rightarrow> curve list \<Rightarrow> name \<Rightarrow> curve
     \<Rightarrow> curve2d_id list \<Rightarrow> (curve2d_id \<times> curve) list \<Rightarrow> database
     \<Rightarrow> error + ((curve2d_id \<times> curve) list \<times> database)" where
  "process_curve k p planar2instance allPlanarCurves view current visited curvesToProcess d =
     (if all_crosses k current allPlanarCurves = [] then
        (case updateCurve view [\<lparr>trimmed = Whole current, start = - 1, stop = - 1\<rparr>] p d of
           Inl e \<Rightarrow> Inl e
         | Inr d1 \<Rightarrow> Inr (curvesToProcess, d1))
      else
        split_curve k p planar2instance view current visited curvesToProcess d
          (sort_key (\<lambda>c. t (on1 c)) (all_crosses k current allPlanarCurves)))"

text \<open>The walk only queues curves that have not been visited.\<close>

lemma keys_delete: "fst ` set (AList.delete k al) = fst ` set al - {k}"
  by (induction al) auto

lemma trim_step_Inr:
  assumes "map_of p2i (Id (on_curve (on2 x))) = Some n" and "touch owner n c2i = Inr c2i1"
  shows "trim_step k p2i owner c1 visited x (s, trs, c2i, q) =
     Inr (t (on1 x),
          (if cuttable k s (t (on1 x))
           then trs @ [\<lparr>trimmed = Trimmed c1 s (t (on1 x)), start = s, stop = t (on1 x)\<rparr>]
           else trs),
          c2i1,
          (if Id (on_curve (on2 x)) \<notin> set visited
           then AList.update (Id (on_curve (on2 x))) (on_curve (on2 x)) q else q))"
  using assms by (simp add: trim_step_def Let_def)

lemma trim_step_cases:
  assumes "trim_step k p2i owner c1 visited x (s, trs, c2i, q) = Inr r"
  obtains n c2i1 where
    "map_of p2i (Id (on_curve (on2 x))) = Some n"
    "touch owner n c2i = Inr c2i1"
    "r = (t (on1 x),
          (if cuttable k s (t (on1 x))
           then trs @ [\<lparr>trimmed = Trimmed c1 s (t (on1 x)), start = s, stop = t (on1 x)\<rparr>]
           else trs),
          c2i1,
          (if Id (on_curve (on2 x)) \<notin> set visited
           then AList.update (Id (on_curve (on2 x))) (on_curve (on2 x)) q else q))"
proof (cases "map_of p2i (Id (on_curve (on2 x)))")
  case None
  with assms show thesis by (simp add: trim_step_def)
next
  case (Some n)
  show thesis
  proof (cases "touch owner n c2i")
    case (Inl e)
    with assms Some show thesis by (simp add: trim_step_def)
  next
    case (Inr c2i1)
    from assms have "r = projr (trim_step k p2i owner c1 visited x (s, trs, c2i, q))" by simp
    then show thesis
      unfolding trim_step_Inr[OF Some Inr] sum.sel by (rule that[OF Some Inr])
  qed
qed

lemma trim_step_queue:
  assumes "trim_step k p2i owner c1 visited x (s, trs, c2i, q) = Inr (s1, trs1, c2i1, q1)"
  shows "fst ` set q1 \<subseteq> fst ` set q \<union> (- set visited)"
  using assms
proof (cases rule: trim_step_cases)
  case (1 n c2i2)
  then have q1: "q1 = (if Id (on_curve (on2 x)) \<notin> set visited
           then AList.update (Id (on_curve (on2 x))) (on_curve (on2 x)) q else q)"
    by (simp only: prod.inject)
  show ?thesis
  proof (cases "Id (on_curve (on2 x)) \<in> set visited")
    case True
    with q1 have "q1 = q" by simp
    then show ?thesis by simp
  next
    case False
    with q1 have "q1 = AList.update (Id (on_curve (on2 x))) (on_curve (on2 x)) q" by simp
    then have "fst ` set q1 = {Id (on_curve (on2 x))} \<union> fst ` set q"
      by (simp only: AList.dom_update)
    with False show ?thesis by simp
  qed
qed

lemma trim_loop_queue:
  assumes "trim_loop k p2i owner c1 visited xs (s, trs, c2i, q) = Inr (s1, trs1, c2i1, q1)"
  shows "fst ` set q1 \<subseteq> fst ` set q \<union> (- set visited)"
  using assms
proof (induction xs arbitrary: s trs c2i q)
  case Nil
  then show ?case by simp
next
  case (Cons x xs)
  show ?case
  proof (cases "trim_step k p2i owner c1 visited x (s, trs, c2i, q)")
    case (Inl e)
    with Cons.prems show ?thesis by simp
  next
    case (Inr acc)
    obtain s2 trs2 c2i2 q2 where acc: "acc = (s2, trs2, c2i2, q2)" by (cases acc)
    from Cons.prems Inr acc
    have "trim_loop k p2i owner c1 visited xs (s2, trs2, c2i2, q2) = Inr (s1, trs1, c2i1, q1)"
      by simp
    from Cons.IH[OF this] trim_step_queue[OF Inr[unfolded acc]] show ?thesis by blast
  qed
qed

lemma updateCurve_cases:
  assumes "updateCurve v trims p d = Inr d1"
  obtains info views s where
    "map_of (curve2info d) v = Some info"
    "add_fragments v p trims (db d) = (views, s)"
    "d1 = d\<lparr>curve2info := AList.update v (info\<lparr>fragments := views\<rparr>) (curve2info d),
            db := s, pending := pending d @ fragments info\<rparr>"
proof (cases "map_of (curve2info d) v")
  case None
  with assms show thesis by (simp add: updateCurve_def)
next
  case (Some info)
  obtain views s where af: "add_fragments v p trims (db d) = (views, s)"
    by (cases "add_fragments v p trims (db d)")
  from assms Some af have
    "d1 = d\<lparr>curve2info := AList.update v (info\<lparr>fragments := views\<rparr>) (curve2info d),
            db := s, pending := pending d @ fragments info\<rparr>"
    by (simp add: updateCurve_def)
  with Some af show thesis by (rule that)
qed

lemma split_curve_cases:
  assumes "split_curve k p p2i view current visited q d xs = Inr (q1, d1)"
  obtains crosses c2i s1 trims c2i1 where
    "bounded_crosses current p2i xs (curve2info d) = Inr (crosses, c2i)"
    "trim_loop k p2i (map_of p2i (Id (on_curve (on1 (hd xs))))) (on_curve (on1 (hd xs)))
       visited crosses (t (on1 (hd crosses)), [], c2i, q) = Inr (s1, trims, c2i1, q1)"
    "updateCurve view trims p (d\<lparr>curve2info := c2i1\<rparr>) = Inr d1"
proof (cases "bounded_crosses current p2i xs (curve2info d)")
  case (Inl e)
  with assms show thesis by (simp add: split_curve_def)
next
  case (Inr bc)
  obtain crosses c2i where bc: "bc = (crosses, c2i)" by (cases bc)
  show thesis
  proof (cases "trim_loop k p2i (map_of p2i (Id (on_curve (on1 (hd xs)))))
                  (on_curve (on1 (hd xs))) visited crosses (t (on1 (hd crosses)), [], c2i, q)")
    case (Inl e)
    with assms Inr bc show thesis by (simp add: split_curve_def)
  next
    case tl: (Inr acc)
    obtain s1 trims c2i1 q2 where acc: "acc = (s1, trims, c2i1, q2)" by (cases acc)
    show thesis
    proof (cases "updateCurve view trims p (d\<lparr>curve2info := c2i1\<rparr>)")
      case (Inl e)
      with assms Inr bc tl acc show thesis by (simp add: split_curve_def)
    next
      case uc: (Inr d2)
      with assms Inr bc tl acc have "q2 = q1" "d2 = d1" by (simp_all add: split_curve_def)
      with Inr bc tl acc uc show thesis by (intro that) simp_all
    qed
  qed
qed

lemma process_curve_cases:
  assumes "process_curve k p p2i all view current visited q d = Inr (q1, d1)"
  obtains
    (whole) "all_crosses k current all = []"
      "updateCurve view [\<lparr>trimmed = Whole current, start = - 1, stop = - 1\<rparr>] p d = Inr d1"
      "q1 = q"
  | (split) "all_crosses k current all \<noteq> []"
      "split_curve k p p2i view current visited q d
         (sort_key (\<lambda>c. t (on1 c)) (all_crosses k current all)) = Inr (q1, d1)"
proof (cases "all_crosses k current all = []")
  case True
  with assms have
    "(case updateCurve view [\<lparr>trimmed = Whole current, start = - 1, stop = - 1\<rparr>] p d of
        Inl e \<Rightarrow> Inl e | Inr d1 \<Rightarrow> Inr (q, d1)) = Inr (q1, d1)"
    by (simp add: process_curve_def)
  then have "updateCurve view [\<lparr>trimmed = Whole current, start = - 1, stop = - 1\<rparr>] p d = Inr d1"
    and "q1 = q"
    by (simp_all split: sum.splits)
  with True show thesis by (rule whole)
next
  case False
  with assms show thesis by (intro split) (simp_all add: process_curve_def)
qed

lemma process_curve_queue:
  assumes "process_curve k p p2i all view current visited q d = Inr (q1, d1)"
  shows "fst ` set q1 \<subseteq> fst ` set q \<union> (- set visited)"
  using assms
proof (cases rule: process_curve_cases)
  case whole
  then show ?thesis by simp
next
  case split
  from split(2) show ?thesis
    by (rule split_curve_cases) (rule trim_loop_queue)
qed

subsection \<open>The worklist and \<open>add\<close>\<close>

text \<open>\<open>while (curvesToProcess.size > 0)\<close>: the first entry of the map is taken, marked
  visited and deleted from the map; the store lookup of its identity fails when
  \<open>planar2instance\<close> does not know the curve.  \<open>add\<close> below is the body of the method
  up to its last line, \<open>await Promise.all(promises)\<close>; what that line waits for is
  \<open>settle\<close>.\<close>

function add_loop ::
  "kernel \<Rightarrow> placement3d \<Rightarrow> (curve2d_id \<times> name) list \<Rightarrow> curve list
     \<Rightarrow> (curve2d_id \<times> curve) list \<Rightarrow> curve2d_id list \<Rightarrow> database \<Rightarrow> error + database" where
  "add_loop k p planar2instance allPlanarCurves curvesToProcess visited d =
     (case curvesToProcess of
        [] \<Rightarrow> Inr d
      | (i, current) # _ \<Rightarrow>
          (case map_of planar2instance i of
             None \<Rightarrow> Inl InvalidPrecondition
           | Some view \<Rightarrow>
               (case process_curve k p planar2instance allPlanarCurves view current
                       (set_add i visited) (AList.delete i curvesToProcess) d of
                  Inl e \<Rightarrow> Inl e
                | Inr (curvesToProcess1, d1) \<Rightarrow>
                    add_loop k p planar2instance allPlanarCurves curvesToProcess1
                      (set_add i visited) d1)))"
  by pat_completeness auto
termination
proof (relation "measures
    [\<lambda>(k, p, p2i, all, q, visited, d). card (fst ` set p2i - set visited),
     \<lambda>(k, p, p2i, all, q, visited, d). card (fst ` set q \<inter> set visited)]", goal_cases)
  case 1
  show ?case by simp
next
  case (2 k p p2i all q visited d x xs i current view r q1 d1)
  have known: "i \<in> fst ` set p2i"
    using 2 by (auto dest: map_of_SomeD intro: rev_image_eqI)
  have iq: "i \<in> fst ` set q" using 2 by auto
  from 2 have "process_curve k p p2i all view current (set_add i visited)
      (AList.delete i q) d = Inr (q1, d1)" by simp
  from process_curve_queue[OF this]
  have sub: "fst ` set q1 \<subseteq> (fst ` set q - {i}) \<union> (- set (set_add i visited))"
    unfolding keys_delete .
  show ?case
  proof (cases "i \<in> set visited")
    case False
    have "fst ` set p2i - set (set_add i visited) \<subset> fst ` set p2i - set visited"
      using known False by (auto simp: set_add_def)
    then have "card (fst ` set p2i - set (set_add i visited))
        < card (fst ` set p2i - set visited)"
      by (intro psubset_card_mono) auto
    then show ?thesis by simp
  next
    case True
    then have same: "set_add i visited = visited" by (simp add: set_add_def)
    have "i \<in> fst ` set q \<inter> set visited" using True iq by blast
    moreover have "i \<notin> fst ` set q1 \<inter> set visited"
      using sub True unfolding same by blast
    moreover have "fst ` set q1 \<inter> set visited \<subseteq> fst ` set q \<inter> set visited"
      using sub unfolding same by blast
    ultimately have "fst ` set q1 \<inter> set visited \<subset> fst ` set q \<inter> set visited"
      by blast
    then have "card (fst ` set q1 \<inter> set visited) < card (fst ` set q \<inter> set visited)"
      by (intro psubset_card_mono) auto
    then show ?thesis by (simp add: same)
  qed
qed

declare add_loop.simps [simp del]

definition add :: "kernel \<Rightarrow> name \<Rightarrow> database \<Rightarrow> error + database" where
  "add k newCurve d =
     (case planarizeAndNormalize k newCurve d of
        None \<Rightarrow> Inr d
      | Some ((newPlanarCurve, p), d0) \<Rightarrow>
          (case collect k p (id2planarCurve d0) (curve2info d0) ([], []) of
             Inl e \<Rightarrow> Inl e
           | Inr (planar2instance, allPlanarCurves) \<Rightarrow>
               add_loop k p
                 (AList.update (Id newPlanarCurve) newCurve planar2instance)
                 (allPlanarCurves @ [newPlanarCurve])
                 [(Id newPlanarCurve, newPlanarCurve)] []
                 (d0\<lparr>counter := Suc (counter d0),
                     id2planarCurve := AList.update (counter d0) newPlanarCurve (id2planarCurve d0),
                     curve2info := AList.update newCurve (new_CurveInfo (counter d0) p)
                                     (curve2info d0)\<rparr>)))"

section \<open>Provenance of the fragments\<close>

text \<open>The parameter ranges recorded for the fragments a curve currently owns: for every
  identity in \<open>fragments\<close>, the \<open>start\<close> and \<open>stop\<close> kept with the store item.  A point of
  the curve is covered when it lies in one of the ranges.\<close>

definition fragment_ranges :: "database \<Rightarrow> name \<Rightarrow> (real \<times> real) list" where
  "fragment_ranges d v =
     (case map_of (curve2info d) v of
        None \<Rightarrow> []
      | Some info \<Rightarrow>
          concat (map (\<lambda>f. case map_of (items (db d)) f of
                              None \<Rightarrow> []
                            | Some it \<Rightarrow> [(item_start it, item_stop it)])
                      (fragments info)))"

definition covered :: "(real \<times> real) list \<Rightarrow> real \<Rightarrow> bool" where
  "covered rs x \<longleftrightarrow> (\<exists>(a, b) \<in> set rs. a \<le> x \<and> x \<le> b)"

text \<open>The store never hands out an identity twice: every item is older than the next
  identity.\<close>

definition store_ok :: "geometry_store \<Rightarrow> bool" where
  "store_ok s \<longleftrightarrow> (\<forall>n \<in> fst ` set (items s). n < next_simpleName s)"

text \<open>What the store records for a list of fragments: for each identity, the piece of
  curve, the \<open>start\<close> and \<open>stop\<close> of its provenance and the curve it is a fragment of, or
  nothing when the store has no item of that identity.\<close>

definition provenance :: "fragment_item \<Rightarrow> piece \<times> real \<times> real \<times> name" where
  "provenance it = (item_piece it, item_start it, item_stop it, item_owner it)"

definition records ::
  "geometry_store \<Rightarrow> name list \<Rightarrow> (piece \<times> real \<times> real \<times> name) option list" where
  "records s fs = map (\<lambda>f. map_option provenance (map_of (items s) f)) fs"

text \<open>The fragments each registered curve owns.\<close>

definition fragments_of :: "(name \<times> CurveInfo) list \<Rightarrow> (name \<times> name list) list" where
  "fragments_of c2i = map (\<lambda>(n, info). (n, fragments info)) c2i"

definition owned :: "database \<Rightarrow> name \<Rightarrow> name list option" where
  "owned d = map_of (fragments_of (curve2info d))"

text \<open>The parameters at which a curve with the sorted cross parameters \<open>ts\<close> is cut: a
  bounded curve that is not closed is also cut at its \<open>tMin\<close> and \<open>tMax\<close>, and a closed
  curve is cut once more at its first cross parameter.  The spans of a list of cut
  parameters are the pairs of consecutive parameters that pass the threshold test; the
  walk starts with the first parameter paired with itself.\<close>

definition cut_parameters :: "curve \<Rightarrow> real list \<Rightarrow> real list" where
  "cut_parameters current ts =
     (if IsBounded current \<and> \<not> IsClosed current then TMin current # ts @ [TMax current]
      else if IsClosed current then ts @ [hd ts]
      else ts)"

definition spans :: "kernel \<Rightarrow> real list \<Rightarrow> (real \<times> real) list" where
  "spans k ws = filter (\<lambda>(a, b). cuttable k a b) (zip (hd ws # ws) ws)"

text \<open>What the store should record for the fragments of the user curve \<open>v\<close> with the
  planar curve \<open>c\<close> when the sorted cross parameters of \<open>c\<close> are \<open>ts\<close>: without a cross
  the whole curve, with the pair \<open>(-1, -1)\<close> for its provenance; otherwise one trimmed
  piece for each span of the cut parameters.\<close>

definition expected ::
  "kernel \<Rightarrow> name \<Rightarrow> curve \<Rightarrow> real list \<Rightarrow> (piece \<times> real \<times> real \<times> name) option list" where
  "expected k v c ts =
     (if ts = [] then [Some (Whole c, - 1, - 1, v)]
      else map (\<lambda>(a, b). Some (Trimmed c a b, a, b, v)) (spans k (cut_parameters c ts)))"

text \<open>The sorted parameters, on the curve \<open>c\<close>, of the crosses of \<open>c\<close> with the candidates
  \<open>all\<close>.\<close>

definition cross_parameters :: "kernel \<Rightarrow> curve \<Rightarrow> curve list \<Rightarrow> real list" where
  "cross_parameters k c all =
     map (\<lambda>x. t (on1 x)) (sort_key (\<lambda>x. t (on1 x)) (all_crosses k c all))"

text \<open>A registered curve is split when the store records, for the fragments it owns,
  what is expected for the cross parameters of its planar curve with some list of
  candidates.\<close>

definition entry_split :: "kernel \<Rightarrow> database \<Rightarrow> name \<Rightarrow> bool" where
  "entry_split k d v \<longleftrightarrow>
     (\<exists>fs c pl all. owned d v = Some fs \<and> curve3d2curve2d k v = Some (c, pl) \<and>
        records (db d) fs = expected k v c (cross_parameters k c all))"

text \<open>The store and the registered callbacks fit the registry: the identities of the
  store and of the callbacks are older than the next identity, and every fragment a
  registered curve owns is in the store as a fragment of that curve and has no callback
  registered.\<close>

definition store_inv :: "database \<Rightarrow> bool" where
  "store_inv d \<longleftrightarrow>
     store_ok (db d) \<and> (\<forall>f \<in> set (pending d). f < next_simpleName (db d)) \<and>
     (\<forall>v fs. owned d v = Some fs \<longrightarrow>
        (\<forall>f \<in> set fs. f \<notin> set (pending d) \<and>
           (\<exists>it. map_of (items (db d)) f = Some it \<and> item_owner it = v)))"

section \<open>The joints held by the registry\<close>

text \<open>The joint that \<open>addJoint\<close> builds for the curve of the point \<open>a\<close>, met by the curve of
  the point \<open>b\<close>.\<close>

definition joint_at :: "(curve2d_id \<times> name) list \<Rightarrow> point_on \<Rightarrow> point_on \<Rightarrow> Joint" where
  "joint_at p2i a b =
     \<lparr>joint_on1 = point_of (map_of p2i (Id (on_curve a))) a,
      joint_on2 = point_of (map_of p2i (Id (on_curve b))) b\<rparr>"

text \<open>An entry after a joint has been recorded for the point \<open>a\<close> of its curve: at
  \<open>joints.start\<close> when \<open>a\<close> is at \<open>tMin\<close>, else at \<open>joints.stop\<close> when \<open>a\<close> is at \<open>tMax\<close>, and
  nowhere when \<open>a\<close> is inside the domain.\<close>

definition write_end :: "point_on \<Rightarrow> Joint \<Rightarrow> CurveInfo \<Rightarrow> CurveInfo" where
  "write_end a j info =
     (if t a = TMin (on_curve a) then info\<lparr>joints_start := Some j\<rparr>
      else if t a = TMax (on_curve a) then info\<lparr>joints_stop := Some j\<rparr>
      else info)"

text \<open>The joints of all entries, and the condition that every recorded joint sits at
  its own end: a joint at the start of an entry belongs to that entry and its own
  parameter is the \<open>tMin\<close> it was recorded with, and likewise \<open>tMax\<close> at the stop.\<close>

definition joints_of :: "(name \<times> CurveInfo) list \<Rightarrow> (name \<times> Joint option \<times> Joint option) list" where
  "joints_of c2i = map (\<lambda>(n, info). (n, joints_start info, joints_stop info)) c2i"

definition own_end :: "name \<Rightarrow> bool \<Rightarrow> Joint option \<Rightarrow> bool" where
  "own_end n at_start r =
     (case r of
        None \<Rightarrow> True
      | Some j \<Rightarrow>
          poc_name (joint_on1 j) = Some n \<and>
          poc_t (joint_on1 j) = (if at_start then poc_tmin (joint_on1 j) else poc_tmax (joint_on1 j)))"

definition joints_at_ends :: "(name \<times> CurveInfo) list \<Rightarrow> bool" where
  "joints_at_ends c2i \<longleftrightarrow>
     (\<forall>(n, js, je) \<in> set (joints_of c2i). own_end n True js \<and> own_end n False je)"

section \<open>Crossing curves and the touched sets\<close>

text \<open>
  What is asked of the geometry kernel for the touched sets to be symmetric.  A curve is
  known when it is the planar curve of some user curve.  \<open>X\<close> is the relation "the
  geometry of the two curves crosses": it is symmetric, the kernel reports every
  candidate that crosses the curve it is asked about, and every cross it reports lies on
  that curve and on one of the candidates.  Different user curves have planar curves
  with different identifiers, and being on the same placement is symmetric.
\<close>

definition known :: "kernel \<Rightarrow> curve \<Rightarrow> bool" where
  "known k c \<longleftrightarrow> (\<exists>n p. curve3d2curve2d k n = Some (c, p))"

definition kernel_ok :: "kernel \<Rightarrow> (curve \<Rightarrow> curve \<Rightarrow> bool) \<Rightarrow> bool" where
  "kernel_ok k X \<longleftrightarrow>
     (\<forall>a b. X a b \<longrightarrow> X b a) \<and>
     (\<forall>p q. isSamePlacement k p q \<longrightarrow> isSamePlacement k q p) \<and>
     (\<forall>n m c c' p p'. curve3d2curve2d k n = Some (c, p) \<and> curve3d2curve2d k m = Some (c', p')
         \<and> Id c = Id c' \<longrightarrow> n = m) \<and>
     (\<forall>c all x. known k c \<and> x \<in> set (IntersectWithAll k c all)
         \<longrightarrow> on_curve (on1 x) = c \<and> on_curve (on2 x) \<in> set all) \<and>
     (\<forall>c all b. known k c \<and> b \<in> set all \<and> X c b
         \<longrightarrow> (\<exists>x \<in> set (IntersectWithAll k c all). on_curve (on2 x) = b))"

text \<open>The registry is consistent with the kernel: every entry belongs to one user
  curve, and \<open>id2planarCurve\<close> holds the planar curve of that user curve under a number
  below the counter.\<close>

definition registry_ok :: "kernel \<Rightarrow> database \<Rightarrow> bool" where
  "registry_ok k d \<longleftrightarrow>
     distinct (map fst (curve2info d)) \<and>
     (\<forall>(n, info) \<in> set (curve2info d).
        planarCurve info < counter d \<and>
        (\<exists>c p. curve3d2curve2d k n = Some (c, p) \<and>
               map_of (id2planarCurve d) (planarCurve info) = Some c))"

text \<open>Every registered curve touches every other registered curve on its placement
  whose geometry crosses its own.\<close>

definition touch_complete ::
  "kernel \<Rightarrow> (curve \<Rightarrow> curve \<Rightarrow> bool) \<Rightarrow> (name \<times> CurveInfo) list \<Rightarrow> bool" where
  "touch_complete k X c2i \<longleftrightarrow>
     (\<forall>a ia b ib ca pa cb pb.
        map_of c2i a = Some ia \<and> map_of c2i b = Some ib \<and> a \<noteq> b \<and>
        isSamePlacement k (placement ia) (placement ib) \<and>
        curve3d2curve2d k a = Some (ca, pa) \<and> curve3d2curve2d k b = Some (cb, pb) \<and> X ca cb
        \<longrightarrow> b \<in> set (touched ia))"

text \<open>What a step of \<open>add\<close> may do to the registry: the keys stay, and an entry keeps
  its planar curve number and its placement and loses no touched identity.\<close>

definition grows :: "(name \<times> CurveInfo) list \<Rightarrow> (name \<times> CurveInfo) list \<Rightarrow> bool" where
  "grows c2i c2i1 \<longleftrightarrow>
     map fst c2i1 = map fst c2i \<and>
     (\<forall>n info. map_of c2i n = Some info \<longrightarrow>
        (\<exists>info1. map_of c2i1 n = Some info1 \<and>
           planarCurve info1 = planarCurve info \<and> placement info1 = placement info \<and>
           set (touched info) \<subseteq> set (touched info1)))"

text \<open>The entries of the worklist are candidates filed under their own identifier, and
  \<open>planar2instance\<close> knows them.\<close>

definition queue_ok ::
  "(curve2d_id \<times> name) list \<Rightarrow> curve list \<Rightarrow> (curve2d_id \<times> curve) list \<Rightarrow> bool" where
  "queue_ok p2i all q \<longleftrightarrow>
     (\<forall>(i, c) \<in> set q. i = Id c \<and> c \<in> set all \<and> i \<in> fst ` set p2i)"

text \<open>What is asked of the kernel and of the contours for the fragments to lie in the
  domain of their curve: the parameter, on the curve, of every cross of a curve lies in
  the domain of the curve.\<close>

definition crosses_within :: "kernel \<Rightarrow> bool" where
  "crosses_within k \<longleftrightarrow>
     (\<forall>c all. known k c \<longrightarrow>
        (\<forall>x \<in> set (all_crosses k c all). TMin c \<le> t (on1 x) \<and> t (on1 x) \<le> TMax c))"

section \<open>Commit and remove\<close>

text \<open>
  The four loops of \<open>commit\<close>, in the order of the source, and its last line
  \<open>await Promise.all(promises)\<close>.  Outside the polyline conversion \<open>add\<close> has no
  suspension point before its final \<open>await\<close>: the body of each re-add runs up to that
  point before the next re-add is called, and no callback registered by a teardown or
  by a re-add runs before the four loops are over.  They have all run when the promise
  of \<open>commit\<close> is resolved.  A rejected \<open>add\<close> makes the whole commit reject
  (\<open>Promise.all\<close>); the registry a rejected commit leaves behind is not modelled.
\<close>

primrec teardown_dirty :: "name list \<Rightarrow> database \<Rightarrow> database" where
  "teardown_dirty [] d = d"
| "teardown_dirty (touchee # rest) d = teardown_dirty rest (snd (removeInfo touchee d))"

primrec teardown_deleted :: "Transaction \<Rightarrow> name list \<Rightarrow> database \<Rightarrow> database" where
  "teardown_deleted data [] d = d"
| "teardown_deleted data (touchee # rest) d =
     (if touchee \<in> set (dirty data) then teardown_deleted data rest d
      else teardown_deleted data rest (snd (removeInfo touchee d)))"

primrec readd_dirty :: "kernel \<Rightarrow> Transaction \<Rightarrow> name list \<Rightarrow> database \<Rightarrow> error + database" where
  "readd_dirty k data [] d = Inr d"
| "readd_dirty k data (touchee # rest) d =
     (if touchee \<in> set (deleted data) then readd_dirty k data rest d
      else (case add k touchee d of
              Inl e \<Rightarrow> Inl e
            | Inr d1 \<Rightarrow> readd_dirty k data rest d1))"

primrec readd_added :: "kernel \<Rightarrow> Transaction \<Rightarrow> name list \<Rightarrow> database \<Rightarrow> error + database" where
  "readd_added k data [] d = Inr d"
| "readd_added k data (touchee # rest) d =
     (if touchee \<in> set (deleted data) then readd_added k data rest d
      else if touchee \<in> set (dirty data) then readd_added k data rest d
      else (case add k touchee d of
              Inl e \<Rightarrow> Inl e
            | Inr d1 \<Rightarrow> readd_added k data rest d1))"

definition commit :: "kernel \<Rightarrow> Transaction \<Rightarrow> database \<Rightarrow> error + database" where
  "commit k data d =
     (case readd_dirty k data (dirty data)
             (teardown_deleted data (deleted data) (teardown_dirty (dirty data) d)) of
        Inl e \<Rightarrow> Inl e
      | Inr d1 \<Rightarrow>
          (case readd_added k data (added data) d1 of
             Inl e \<Rightarrow> Inl e
           | Inr d2 \<Rightarrow> Inr (settle d2)))"

definition remove :: "kernel \<Rightarrow> name \<Rightarrow> database \<Rightarrow> error + database" where
  "remove k c d =
     (case cascade d c new_Transaction of
        Inl e \<Rightarrow> Inl e
      | Inr data \<Rightarrow> commit k data d)"

text \<open>Tearing down a list of identities one after the other, and calling \<open>add\<close> for
  a list of curves one after the other without awaiting any of the calls: what the
  loops of \<open>commit\<close> are compared with.\<close>

definition teardown_all :: "name list \<Rightarrow> database \<Rightarrow> database" where
  "teardown_all xs d = fold (\<lambda>x s. snd (removeInfo x s)) xs d"

primrec add_each :: "kernel \<Rightarrow> name list \<Rightarrow> database \<Rightarrow> error + database" where
  "add_each k [] d = Inr d"
| "add_each k (x # xs) d =
     (case add k x d of Inl e \<Rightarrow> Inl e | Inr d1 \<Rightarrow> add_each k xs d1)"

text \<open>A sequence of \<open>add\<close> calls, each awaited before the next is made: the registry is
  at rest after each of them.\<close>

primrec add_all :: "kernel \<Rightarrow> name list \<Rightarrow> database \<Rightarrow> error + database" where
  "add_all k [] d = Inr d"
| "add_all k (x # xs) d =
     (case add k x d of Inl e \<Rightarrow> Inl e | Inr d1 \<Rightarrow> add_all k xs (settle d1))"

text \<open>A caller that adds and removes curves, awaiting each call before the next is made:
  the registry is at rest after each call.\<close>

datatype operation = Add name | Remove name

primrec perform :: "kernel \<Rightarrow> operation \<Rightarrow> database \<Rightarrow> error + database" where
  "perform k (Add n) d = (case add k n d of Inl e \<Rightarrow> Inl e | Inr d1 \<Rightarrow> Inr (settle d1))"
| "perform k (Remove n) d = remove k n d"

primrec run :: "kernel \<Rightarrow> operation list \<Rightarrow> database \<Rightarrow> error + database" where
  "run k [] d = Inr d"
| "run k (x # xs) d = (case perform k x d of Inl e \<Rightarrow> Inl e | Inr d1 \<Rightarrow> run k xs d1)"

primrec added_curves :: "operation list \<Rightarrow> name list" where
  "added_curves [] = []"
| "added_curves (x # xs) = (case x of Add n \<Rightarrow> n # added_curves xs | Remove n \<Rightarrow> added_curves xs)"

section \<open>Mementos\<close>

text \<open>
  \<open>saveToMemento\<close> and \<open>restoreFromMemento\<close> copy or share the \<open>Map\<close> and \<open>Set\<close>
  objects of the database, and a \<open>CurveInfo\<close> object is shared by every map that holds
  it.  So here the objects live in a heap: the database object and a memento hold
  references to collections, and a map of curve infos holds, for each identity, a
  reference to a \<open>CurveInfo\<close> object.  The planar curves in \<open>id2planarCurve\<close> are objects
  as well, but the database never writes to them, and they are kept as values.  The
  \<open>database\<close> record above is the registry as read through the references of the
  database object.
\<close>

type_synonym ref = nat

record heap =
  infos :: "ref \<Rightarrow> CurveInfo"
  info_maps :: "ref \<Rightarrow> (name \<times> ref) list"
  curve_maps :: "ref \<Rightarrow> (nat \<times> curve) list"
  placement_sets :: "ref \<Rightarrow> placement3d list"
  next_ref :: ref

record CurveMemento =
  m_curve2info :: ref
  m_id2planarCurve :: ref
  m_placements :: ref

record PlanarCurveDatabase =
  this_curve2info :: ref
  this_id2planarCurve :: ref
  this_placements :: ref
  this_counter :: nat

record world =
  objects :: heap
  this :: PlanarCurveDatabase
  store :: geometry_store
  callbacks :: "name list"

text \<open>A map of curve infos, read through the references it holds.\<close>

definition read_infos :: "heap \<Rightarrow> ref \<Rightarrow> (name \<times> CurveInfo) list" where
  "read_infos h r = map (\<lambda>(n, i). (n, infos h i)) (info_maps h r)"

definition live :: "world \<Rightarrow> database" where
  "live w =
     \<lparr>curve2info = read_infos (objects w) (this_curve2info (this w)),
      id2planarCurve = curve_maps (objects w) (this_id2planarCurve (this w)),
      placements = placement_sets (objects w) (this_placements (this w)),
      counter = this_counter (this w),
      db = store w,
      pending = callbacks w\<rparr>"

text \<open>\<open>new CurveMemento(new Map(this.curve2info), new Map(this.id2planarCurve),
  new Set(this.placements))\<close>: three fresh collections with the same contents.  The
  copy of \<open>curve2info\<close> holds the same references as the original: the \<open>CurveInfo\<close>
  objects are not copied.\<close>

definition saveToMemento :: "world \<Rightarrow> CurveMemento \<times> world" where
  "saveToMemento w =
     (let h = objects w; r = next_ref h in
      (\<lparr>m_curve2info = r, m_id2planarCurve = Suc r, m_placements = Suc (Suc r)\<rparr>,
       w\<lparr>objects :=
           h\<lparr>info_maps := (info_maps h)(r := info_maps h (this_curve2info (this w))),
             curve_maps := (curve_maps h)(Suc r := curve_maps h (this_id2planarCurve (this w))),
             placement_sets :=
               (placement_sets h)(Suc (Suc r) := placement_sets h (this_placements (this w))),
             next_ref := Suc (Suc (Suc r))\<rparr>\<rparr>))"

text \<open>\<open>this.curve2info = m.curve2info\<close>, and likewise for the other two fields: the
  fields of the database object now refer to the objects of the memento.\<close>

definition restoreFromMemento :: "CurveMemento \<Rightarrow> world \<Rightarrow> world" where
  "restoreFromMemento m w =
     w\<lparr>this := (this w)\<lparr>this_curve2info := m_curve2info m,
                         this_id2planarCurve := m_id2planarCurve m,
                         this_placements := m_placements m\<rparr>\<rparr>"

text \<open>What a memento holds, read through its references.\<close>

definition snapshot ::
  "CurveMemento \<Rightarrow> world
     \<Rightarrow> (name \<times> CurveInfo) list \<times> (nat \<times> curve) list \<times> placement3d list" where
  "snapshot m w =
     (read_infos (objects w) (m_curve2info m),
      curve_maps (objects w) (m_id2planarCurve m),
      placement_sets (objects w) (m_placements m))"

text \<open>Two mutations of the live registry, on the heap.  \<open>removeInfo\<close> deletes the key
  from the map object the field \<open>curve2info\<close> refers to, and registers the callbacks for
  the fragments of the entry.  \<open>info.touched.add(x)\<close>, as in the walk of \<open>add\<close>, writes
  the \<open>CurveInfo\<close> object that the map holds for the owner.\<close>

definition removeInfo_heap :: "name \<Rightarrow> world \<Rightarrow> world" where
  "removeInfo_heap c w =
     (let h = objects w; r = this_curve2info (this w) in
      case map_of (info_maps h r) c of
        None \<Rightarrow> w
      | Some i \<Rightarrow>
          w\<lparr>objects := h\<lparr>info_maps := (info_maps h)(r := AList.delete c (info_maps h r))\<rparr>,
            callbacks := callbacks w @ fragments (infos h i)\<rparr>)"

definition touch_heap :: "name \<Rightarrow> name \<Rightarrow> world \<Rightarrow> error + world" where
  "touch_heap owner x w =
     (let h = objects w in
      case map_of (info_maps h (this_curve2info (this w))) owner of
        None \<Rightarrow> Inl TypeError
      | Some i \<Rightarrow>
          Inr (w\<lparr>objects :=
                  h\<lparr>infos := (infos h)(i := (infos h i)\<lparr>touched := set_add x (touched (infos h i))\<rparr>)\<rparr>\<rparr>))"

text \<open>The references of the database object point to allocated objects.\<close>

definition allocated :: "world \<Rightarrow> bool" where
  "allocated w \<longleftrightarrow>
     this_curve2info (this w) < next_ref (objects w) \<and>
     this_id2planarCurve (this w) < next_ref (objects w) \<and>
     this_placements (this w) < next_ref (objects w)"

section \<open>Example registries and kernels\<close>

definition example_info :: "name list \<Rightarrow> CurveInfo" where
  "example_info ts = (new_CurveInfo 0 0)\<lparr>touched := ts\<rparr>"

definition example_store :: geometry_store where
  "example_store = \<lparr>items = [], next_simpleName = 100\<rparr>"

definition chain_db :: database where
  "chain_db =
     \<lparr>curve2info = [(1, example_info [2]), (2, example_info [1, 3]),
                     (3, example_info [2]), (4, example_info [])],
      id2planarCurve = [], placements = [0], counter = 4, db = example_store,
      pending = []\<rparr>"

text \<open>The database as the constructor leaves it: no curves, the one placement of the
  construction plane.\<close>

definition empty_db :: database where
  "empty_db =
     \<lparr>curve2info = [], id2planarCurve = [], placements = [0], counter = 0,
      db = example_store, pending = []\<rparr>"

text \<open>Two line segments with parameter domain \<open>[0, 1]\<close> on the construction plane that
  cross at the middle of both (user curves \<open>1\<close> and \<open>2\<close>), and a circle that meets
  nothing (user curve \<open>3\<close>).\<close>

definition segment :: "curve2d_id \<Rightarrow> curve" where
  "segment i =
     \<lparr>Id = i, IsContour = False, CornerParams = [], IsClosed = False, IsBounded = True,
      TMin = 0, TMax = 1\<rparr>"

definition circle :: "curve2d_id \<Rightarrow> curve" where
  "circle i =
     \<lparr>Id = i, IsContour = False, CornerParams = [], IsClosed = True, IsBounded = True,
      TMin = 0, TMax = 6\<rparr>"

definition cross_at :: "curve \<Rightarrow> real \<Rightarrow> curve \<Rightarrow> real \<Rightarrow> cross_point" where
  "cross_at c1 t1 c2 t2 = \<lparr>on1 = \<lparr>t = t1, on_curve = c1\<rparr>, on2 = \<lparr>t = t2, on_curve = c2\<rparr>\<rparr>"

definition cross_kernel :: kernel where
  "cross_kernel =
     \<lparr>curve3d2curve2d =
        (\<lambda>n. if n = 1 then Some (segment 10, 0)
             else if n = 2 then Some (segment 20, 0)
             else if n = 3 then Some (circle 30, 0)
             else None),
      isSamePlacement = (\<lambda>p q. p = q),
      IntersectWithAll =
        (\<lambda>c all.
           if Id c = 10 \<and> segment 20 \<in> set all
           then [cross_at (segment 10) (1 / 2) (segment 20) (1 / 2)]
           else if Id c = 20 \<and> segment 10 \<in> set all
           then [cross_at (segment 20) (1 / 2) (segment 10) (1 / 2)]
           else []),
      subtract = (\<lambda>a b. a - b)\<rparr>"

text \<open>The registry after both segments were added: each is cut in two at the crossing
  and touches the other.\<close>

definition crossed_db :: database where
  "crossed_db =
     \<lparr>curve2info =
        [(1, \<lparr>planarCurve = 0, placement = 0, touched = [1, 2], fragments = [103, 104],
               joints_start = None, joints_stop = None\<rparr>),
         (2, \<lparr>planarCurve = 1, placement = 0, touched = [2, 1], fragments = [101, 102],
               joints_start = None, joints_stop = None\<rparr>)],
      id2planarCurve = [(0, segment 10), (1, segment 20)],
      placements = [0], counter = 2,
      db = \<lparr>items =
              [(101, \<lparr>item_placement = 0, item_piece = Trimmed (segment 20) 0 (1 / 2),
                      item_start = 0, item_stop = 1 / 2, item_owner = 2\<rparr>),
               (102, \<lparr>item_placement = 0, item_piece = Trimmed (segment 20) (1 / 2) 1,
                      item_start = 1 / 2, item_stop = 1, item_owner = 2\<rparr>),
               (103, \<lparr>item_placement = 0, item_piece = Trimmed (segment 10) 0 (1 / 2),
                      item_start = 0, item_stop = 1 / 2, item_owner = 1\<rparr>),
               (104, \<lparr>item_placement = 0, item_piece = Trimmed (segment 10) (1 / 2) 1,
                      item_start = 1 / 2, item_stop = 1, item_owner = 1\<rparr>)],
            next_simpleName = 105\<rparr>,
      pending = []\<rparr>"

text \<open>The same registry held by a database object: its three collections are the
  objects \<open>0\<close>, \<open>1\<close> and \<open>2\<close> of the heap, and the \<open>CurveInfo\<close> objects of the curves
  \<open>1\<close> and \<open>2\<close> are the objects \<open>3\<close> and \<open>4\<close>.\<close>

definition crossed_world :: world where
  "crossed_world =
     \<lparr>objects =
        \<lparr>infos = (\<lambda>r. new_CurveInfo 0 0)
           (3 := \<lparr>planarCurve = 0, placement = 0, touched = [1, 2], fragments = [103, 104],
                   joints_start = None, joints_stop = None\<rparr>,
            4 := \<lparr>planarCurve = 1, placement = 0, touched = [2, 1], fragments = [101, 102],
                   joints_start = None, joints_stop = None\<rparr>),
         info_maps = (\<lambda>r. [])(0 := [(1, 3), (2, 4)]),
         curve_maps = (\<lambda>r. [])(1 := id2planarCurve crossed_db),
         placement_sets = (\<lambda>r. [])(2 := placements crossed_db),
         next_ref = 5\<rparr>,
      this = \<lparr>this_curve2info = 0, this_id2planarCurve = 1, this_placements = 2,
               this_counter = 2\<rparr>,
      store = db crossed_db,
      callbacks = []\<rparr>"

text \<open>A memento of that registry is saved and restored at once; afterwards curve \<open>2\<close>
  is torn down in the live registry.\<close>

definition saved_memento :: CurveMemento where
  "saved_memento = fst (saveToMemento crossed_world)"

definition restored_world :: world where
  "restored_world = restoreFromMemento saved_memento (snd (saveToMemento crossed_world))"

definition mutated_world :: world where
  "mutated_world = removeInfo_heap 2 restored_world"

text \<open>A registry with fresh entries for the two segments, and the map from planar
  curves to user curves that \<open>add\<close> builds for it.\<close>

definition fresh_c2i :: "(name \<times> CurveInfo) list" where
  "fresh_c2i = [(1, new_CurveInfo 0 0), (2, new_CurveInfo 1 0)]"

definition fresh_p2i :: "(curve2d_id \<times> name) list" where
  "fresh_p2i = [(10, 1), (20, 2)]"

text \<open>Segment \<open>20\<close> starts on the middle of segment \<open>10\<close>: the cross as found from
  segment \<open>20\<close>.\<close>

definition tee_cross :: cross_point where
  "tee_cross = cross_at (segment 20) 0 (segment 10) (1 / 2)"

text \<open>The registry after the first segment alone was added.\<close>

definition lone_db :: database where
  "lone_db =
     \<lparr>curve2info =
        [(1, \<lparr>planarCurve = 0, placement = 0, touched = [], fragments = [100],
               joints_start = None, joints_stop = None\<rparr>)],
      id2planarCurve = [(0, segment 10)], placements = [0], counter = 1,
      db = \<lparr>items =
              [(100, \<lparr>item_placement = 0, item_piece = Whole (segment 10),
                      item_start = - 1, item_stop = - 1, item_owner = 1\<rparr>)],
            next_simpleName = 101\<rparr>,
      pending = []\<rparr>"

text \<open>Adding the second segment: the registry when the worklist starts.\<close>

definition pre_db :: database where
  "pre_db =
     \<lparr>curve2info =
        [(1, \<lparr>planarCurve = 0, placement = 0, touched = [], fragments = [100],
               joints_start = None, joints_stop = None\<rparr>),
         (2, new_CurveInfo 1 0)],
      id2planarCurve = [(0, segment 10), (1, segment 20)], placements = [0], counter = 2,
      db = \<lparr>items =
              [(100, \<lparr>item_placement = 0, item_piece = Whole (segment 10),
                      item_start = - 1, item_stop = - 1, item_owner = 1\<rparr>)],
            next_simpleName = 101\<rparr>,
      pending = []\<rparr>"

text \<open>The geometry of the example: the two segments cross each other, and nothing else
  crosses.\<close>

definition segments_cross :: "curve \<Rightarrow> curve \<Rightarrow> bool" where
  "segments_cross a b \<longleftrightarrow>
     (a = segment 10 \<and> b = segment 20) \<or> (a = segment 20 \<and> b = segment 10)"

text \<open>A kernel given by two tables: the planar curve of each user curve, all on the
  construction plane, and the cross points, each listed from both of its curves.  Its
  subtraction does not round; the parameters of the examples below are doubles whose
  differences are doubles.\<close>

definition table_kernel :: "(name \<times> curve) list \<Rightarrow> cross_point list \<Rightarrow> kernel" where
  "table_kernel curves crosses =
     \<lparr>curve3d2curve2d = (\<lambda>n. map_option (\<lambda>c. (c, 0)) (map_of curves n)),
      isSamePlacement = (\<lambda>p q. p = q),
      IntersectWithAll =
        (\<lambda>c all. filter (\<lambda>x. on_curve (on1 x) = c \<and> on_curve (on2 x) \<in> set all) crosses),
      subtract = (\<lambda>a b. a - b)\<rparr>"

text \<open>An unbounded straight line.\<close>

definition line :: "curve2d_id \<Rightarrow> curve" where
  "line i =
     \<lparr>Id = i, IsContour = False, CornerParams = [], IsClosed = False, IsBounded = False,
      TMin = - 50000000, TMax = 50000000\<rparr>"

text \<open>Segment \<open>20\<close> (user curve \<open>2\<close>) starts on the middle of segment \<open>10\<close> (user curve
  \<open>1\<close>).\<close>

definition tee_kernel :: kernel where
  "tee_kernel =
     table_kernel [(1, segment 10), (2, segment 20)]
       [cross_at (segment 10) (1 / 2) (segment 20) 0,
        cross_at (segment 20) 0 (segment 10) (1 / 2)]"

text \<open>A circle (user curve \<open>3\<close>, parameters from \<open>0\<close> to \<open>6\<close>) cuts segment \<open>10\<close> at a
  quarter and at three quarters of the segment; the first of the two points is the seam
  of the circle, where its parameter is \<open>tMin\<close>, the second is at its parameter \<open>3\<close>.\<close>

definition seam_kernel :: kernel where
  "seam_kernel =
     table_kernel [(1, segment 10), (3, circle 30)]
       [cross_at (segment 10) (1 / 4) (circle 30) 0,
        cross_at (circle 30) 0 (segment 10) (1 / 4),
        cross_at (segment 10) (3 / 4) (circle 30) 3,
        cross_at (circle 30) 3 (segment 10) (3 / 4)]"

text \<open>A circle (user curve \<open>3\<close>) touches the middle of segment \<open>10\<close> at its parameter
  \<open>3\<close>, and an unbounded line (user curve \<open>4\<close>) cuts the segment at a quarter, at the
  parameter \<open>0\<close> of the line.\<close>

definition tangent_kernel :: kernel where
  "tangent_kernel =
     table_kernel [(1, segment 10), (3, circle 30), (4, line 40)]
       [cross_at (segment 10) (1 / 2) (circle 30) 3,
        cross_at (circle 30) 3 (segment 10) (1 / 2),
        cross_at (segment 10) (1 / 4) (line 40) 0,
        cross_at (line 40) 0 (segment 10) (1 / 4)]"

text \<open>The joint of the start of segment \<open>20\<close> with the middle of segment \<open>10\<close>.\<close>

definition tee_joint :: Joint where
  "tee_joint =
     \<lparr>joint_on1 = \<lparr>poc_name = Some 2, poc_t = 0, poc_tmin = 0, poc_tmax = 1\<rparr>,
      joint_on2 = \<lparr>poc_name = Some 1, poc_t = 1 / 2, poc_tmin = 0, poc_tmax = 1\<rparr>\<rparr>"

text \<open>The registry at rest after the segment and then the circle that cuts it twice
  were added.  The circle is cut at its two cross parameters; its second fragment runs
  from \<open>3\<close> through the seam to \<open>0\<close>.\<close>

definition seam_db :: database where
  "seam_db =
     \<lparr>curve2info =
        [(1, \<lparr>planarCurve = 0, placement = 0, touched = [1, 3], fragments = [103, 104, 105],
               joints_start = None, joints_stop = None\<rparr>),
         (3, \<lparr>planarCurve = 1, placement = 0, touched = [1], fragments = [101, 102],
               joints_start = None, joints_stop = None\<rparr>)],
      id2planarCurve = [(0, segment 10), (1, circle 30)],
      placements = [0], counter = 2,
      db = \<lparr>items =
              [(101, \<lparr>item_placement = 0, item_piece = Trimmed (circle 30) 0 3,
                      item_start = 0, item_stop = 3, item_owner = 3\<rparr>),
               (102, \<lparr>item_placement = 0, item_piece = Trimmed (circle 30) 3 0,
                      item_start = 3, item_stop = 0, item_owner = 3\<rparr>),
               (103, \<lparr>item_placement = 0, item_piece = Trimmed (segment 10) 0 (1 / 4),
                      item_start = 0, item_stop = 1 / 4, item_owner = 1\<rparr>),
               (104, \<lparr>item_placement = 0, item_piece = Trimmed (segment 10) (1 / 4) (3 / 4),
                      item_start = 1 / 4, item_stop = 3 / 4, item_owner = 1\<rparr>),
               (105, \<lparr>item_placement = 0, item_piece = Trimmed (segment 10) (3 / 4) 1,
                      item_start = 3 / 4, item_stop = 1, item_owner = 1\<rparr>)],
            next_simpleName = 106\<rparr>,
      pending = []\<rparr>"

text \<open>The registry at rest after the segment, the circle that touches it and the line
  that cuts it were added.\<close>

definition tangent_db :: database where
  "tangent_db =
     \<lparr>curve2info =
        [(1, \<lparr>planarCurve = 0, placement = 0, touched = [1, 3, 4], fragments = [103, 104, 105],
               joints_start = None, joints_stop = None\<rparr>),
         (3, \<lparr>planarCurve = 1, placement = 0, touched = [1], fragments = [],
               joints_start = None, joints_stop = None\<rparr>),
         (4, \<lparr>planarCurve = 2, placement = 0, touched = [1], fragments = [],
               joints_start = None, joints_stop = None\<rparr>)],
      id2planarCurve = [(0, segment 10), (1, circle 30), (2, line 40)],
      placements = [0], counter = 3,
      db = \<lparr>items =
              [(103, \<lparr>item_placement = 0, item_piece = Trimmed (segment 10) 0 (1 / 4),
                      item_start = 0, item_stop = 1 / 4, item_owner = 1\<rparr>),
               (104, \<lparr>item_placement = 0, item_piece = Trimmed (segment 10) (1 / 4) (1 / 2),
                      item_start = 1 / 4, item_stop = 1 / 2, item_owner = 1\<rparr>),
               (105, \<lparr>item_placement = 0, item_piece = Trimmed (segment 10) (1 / 2) 1,
                      item_start = 1 / 2, item_stop = 1, item_owner = 1\<rparr>)],
            next_simpleName = 106\<rparr>,
      pending = []\<rparr>"

section \<open>What the callbacks leave alone\<close>

lemma settle_registry [simp]:
  "curve2info (settle d) = curve2info d" "id2planarCurve (settle d) = id2planarCurve d"
  "placements (settle d) = placements d" "counter (settle d) = counter d"
  "pending (settle d) = []"
  by (simp_all add: settle_def)

lemma registry_ok_settle [simp]: "registry_ok k (settle d) = registry_ok k d"
  by (simp add: registry_ok_def)

section \<open>Maps as association lists\<close>

lemma update_entries: "set (AList.update k v al) \<subseteq> insert (k, v) (set al)"
  by (induction al) auto

lemma update_keeps_keys: "fst ` set al \<subseteq> fst ` set (AList.update k v al)"
  unfolding AList.dom_update by (rule Un_upper2)

lemma update_fresh: "k \<notin> fst ` set al \<Longrightarrow> AList.update k v al = al @ [(k, v)]"
  by (induction al) auto

section \<open>Unfolding the worklist and \<open>add\<close>\<close>

lemma add_loop_Nil: "add_loop k p p2i all [] visited d = Inr d"
  by (subst add_loop.simps) simp

lemma add_loop_cases:
  assumes "add_loop k p p2i all ((i, current) # rest) visited d = Inr d1"
  obtains view q1 d2 where
    "map_of p2i i = Some view"
    "process_curve k p p2i all view current (set_add i visited)
       (AList.delete i ((i, current) # rest)) d = Inr (q1, d2)"
    "add_loop k p p2i all q1 (set_add i visited) d2 = Inr d1"
proof (cases "map_of p2i i")
  case None
  with assms show thesis by (subst (asm) add_loop.simps) simp
next
  case (Some view)
  show thesis
  proof (cases "process_curve k p p2i all view current (set_add i visited)
                  (AList.delete i ((i, current) # rest)) d")
    case (Inl e)
    with assms Some show thesis by (subst (asm) add_loop.simps) simp
  next
    case (Inr r)
    obtain q1 d2 where r: "r = (q1, d2)" by (cases r)
    from assms Some Inr r have "add_loop k p p2i all q1 (set_add i visited) d2 = Inr d1"
      by (subst (asm) add_loop.simps) simp
    with Some Inr r show thesis by (intro that) simp_all
  qed
qed

lemma add_not_planar:
  assumes "curve3d2curve2d k N = None"
  shows "add k N d = Inr d"
  using assms by (simp add: add_def planarizeAndNormalize_def)

lemma add_unfold:
  assumes "curve3d2curve2d k N = Some (cN, pl)" and "add k N d = Inr d1"
  obtains pN ps p2i0 all0 where
    "collect k pN (id2planarCurve d) (curve2info d) ([], []) = Inr (p2i0, all0)"
    "add_loop k pN (AList.update (Id cN) N p2i0) (all0 @ [cN]) [(Id cN, cN)] []
       (d\<lparr>placements := ps, counter := Suc (counter d),
          id2planarCurve := AList.update (counter d) cN (id2planarCurve d),
          curve2info := AList.update N (new_CurveInfo (counter d) pN) (curve2info d)\<rparr>) = Inr d1"
proof -
  obtain pN ps where np: "normalizePlacement k pl (placements d) = (pN, ps)"
    by (cases "normalizePlacement k pl (placements d)")
  with assms(1) have pl: "planarizeAndNormalize k N d = Some ((cN, pN), d\<lparr>placements := ps\<rparr>)"
    by (simp add: planarizeAndNormalize_def)
  show thesis
  proof (cases "collect k pN (id2planarCurve d) (curve2info d) ([], [])")
    case (Inl e)
    with assms(2) pl show thesis by (simp add: add_def)
  next
    case (Inr r)
    obtain p2i0 all0 where r: "r = (p2i0, all0)" by (cases r)
    from assms(2) pl Inr r have
      "add_loop k pN (AList.update (Id cN) N p2i0) (all0 @ [cN]) [(Id cN, cN)] []
       (d\<lparr>placements := ps, counter := Suc (counter d),
          id2planarCurve := AList.update (counter d) cN (id2planarCurve d),
          curve2info := AList.update N (new_CurveInfo (counter d) pN) (curve2info d)\<rparr>) = Inr d1"
      by (simp add: add_def)
    with Inr r show thesis by (intro that) simp_all
  qed
qed


section \<open>Registered callbacks\<close>

lemma fold_removeItem_keys:
  "fst ` set (items (fold removeItem fs s)) = fst ` set (items s) - set fs"
proof (induction fs arbitrary: s)
  case Nil
  show ?case by simp
next
  case (Cons f fs)
  have "fst ` set (items (removeItem f s)) = fst ` set (items s) - {f}"
    by (simp add: removeItem_def keys_delete)
  with Cons.IH[of "removeItem f s"] show ?case by auto
qed

lemma fold_removeItem_next [simp]:
  "next_simpleName (fold removeItem fs s) = next_simpleName s"
  by (induction fs arbitrary: s) (simp_all add: removeItem_def)

lemma fold_removeItem_lookup:
  "map_of (items (fold removeItem fs s)) f =
     (if f \<in> set fs then None else map_of (items s) f)"
proof (induction fs arbitrary: s)
  case Nil
  show ?case by simp
next
  case (Cons g fs)
  have step: "map_of (items (removeItem g s)) x = (if x = g then None else map_of (items s) x)"
    for x
    by (simp add: removeItem_def delete_conv')
  show ?case by (simp add: Cons.IH step)
qed

lemma settle_items:
  "fst ` set (items (db (settle d))) = fst ` set (items (db d)) - set (pending d)"
  by (simp add: settle_def fold_removeItem_keys)

text \<open>No step of \<open>add\<close> takes a callback back: the list of registered callbacks only
  grows at its end.\<close>

lemma updateCurve_pending:
  assumes "updateCurve v trims p d = Inr d1"
  shows "\<exists>ps. pending d1 = pending d @ ps"
  using assms by (rule updateCurve_cases) simp

lemma process_curve_pending:
  assumes "process_curve k p p2i all view current visited q d = Inr (q1, d1)"
  shows "\<exists>ps. pending d1 = pending d @ ps"
  using assms
proof (cases rule: process_curve_cases)
  case whole
  from whole(2) show ?thesis by (rule updateCurve_pending)
next
  case split
  from split(2) obtain trims c2i1 where
    "updateCurve view trims p (d\<lparr>curve2info := c2i1\<rparr>) = Inr d1"
    by (rule split_curve_cases)
  from updateCurve_pending[OF this] show ?thesis by simp
qed

lemma add_loop_pending:
  assumes "add_loop k p p2i all q visited d = Inr d1"
  shows "\<exists>ps. pending d1 = pending d @ ps"
  using assms
proof (induction k p p2i all q visited d rule: add_loop.induct)
  case (1 k p p2i all q visited d)
  show ?case
  proof (cases q)
    case Nil
    with "1.prems" have "d1 = d" by (simp add: add_loop_Nil)
    then show ?thesis by simp
  next
    case (Cons e rest)
    obtain i current where e: "e = (i, current)" by (cases e)
    from "1.prems"[unfolded Cons e] obtain view q1 d2 where
      view: "map_of p2i i = Some view" and
      pc: "process_curve k p p2i all view current (set_add i visited)
             (AList.delete i ((i, current) # rest)) d = Inr (q1, d2)" and
      rec: "add_loop k p p2i all q1 (set_add i visited) d2 = Inr d1"
      by (rule add_loop_cases)
    have pc': "process_curve k p p2i all view current (set_add i visited)
             (AList.delete i q) d = Inr (q1, d2)"
      using pc unfolding Cons e .
    from "1.IH"[OF Cons e[symmetric] view pc' refl rec]
    obtain ps2 where "pending d1 = pending d2 @ ps2" by blast
    moreover from process_curve_pending[OF pc]
    obtain ps1 where "pending d2 = pending d @ ps1" by blast
    ultimately show ?thesis by simp
  qed
qed

lemma add_pending:
  assumes "add k N d = Inr d1"
  shows "\<exists>ps. pending d1 = pending d @ ps"
proof (cases "curve3d2curve2d k N")
  case None
  with assms have "d1 = d" by (simp add: add_not_planar)
  then show ?thesis by simp
next
  case (Some r)
  obtain cN pl where r: "r = (cN, pl)" by (cases r)
  from Some[unfolded r] assms obtain pN ps p2i0 all0 where
    "add_loop k pN (AList.update (Id cN) N p2i0) (all0 @ [cN]) [(Id cN, cN)] []
       (d\<lparr>placements := ps, counter := Suc (counter d),
          id2planarCurve := AList.update (counter d) cN (id2planarCurve d),
          curve2info := AList.update N (new_CurveInfo (counter d) pN) (curve2info d)\<rparr>) = Inr d1"
    by (rule add_unfold)
  from add_loop_pending[OF this] show ?thesis by simp
qed

section \<open>Properties of cascade\<close>

lemma cascade_walk_Nil: "cascade_walk c2i [] visited = Inr visited"
  by (subst cascade_walk.simps) simp

lemma cascade_walk_seen:
  "walk \<noteq> [] \<Longrightarrow> last walk \<in> set visited
     \<Longrightarrow> cascade_walk c2i walk visited = cascade_walk c2i (butlast walk) visited"
  by (subst cascade_walk.simps) simp

lemma cascade_walk_missing:
  "walk \<noteq> [] \<Longrightarrow> last walk \<notin> set visited \<Longrightarrow> map_of c2i (last walk) = None
     \<Longrightarrow> cascade_walk c2i walk visited = Inl TypeError"
  by (subst cascade_walk.simps) simp

lemma cascade_walk_expand:
  "walk \<noteq> [] \<Longrightarrow> last walk \<notin> set visited \<Longrightarrow> map_of c2i (last walk) = Some info
     \<Longrightarrow> cascade_walk c2i walk visited =
         cascade_walk c2i (butlast walk @ touched info) (set_add (last walk) visited)"
  by (subst cascade_walk.simps) simp

lemma last_butlast_set: "walk \<noteq> [] \<Longrightarrow> set walk = insert (last walk) (set (butlast walk))"
  by (cases walk rule: rev_cases) auto

lemma touched_rel_Image:
  "map_of c2i a = Some info \<Longrightarrow> touched_rel c2i `` {a} = set (touched info)"
  by (auto simp: touched_rel_def)

lemma touched_rel_unregistered:
  "map_of c2i a = None \<Longrightarrow> touched_rel c2i `` {a} = {}"
  by (auto simp: touched_rel_def)

lemma cascade_walk_total:
  "touched_closed c2i \<Longrightarrow> set walk \<subseteq> fst ` set c2i
     \<Longrightarrow> \<exists>r. cascade_walk c2i walk visited = Inr r"
proof (induction c2i walk visited rule: cascade_walk.induct)
  case (1 c2i walk visited)
  show ?case
  proof (cases "walk = []")
    case True
    then show ?thesis by (simp add: cascade_walk_Nil)
  next
    case ne: False
    let ?x = "last walk"
    have sub: "set (butlast walk) \<subseteq> fst ` set c2i" and xin: "?x \<in> fst ` set c2i"
      using "1.prems"(2) ne by (auto simp: last_butlast_set)
    show ?thesis
    proof (cases "?x \<in> set visited")
      case True
      with ne "1.IH"(1)[OF ne refl refl True "1.prems"(1) sub] show ?thesis
        by (simp add: cascade_walk_seen)
    next
      case nv: False
      from xin obtain info where info: "map_of c2i ?x = Some info"
        by (metis map_of_eq_None_iff not_Some_eq)
      then have "(?x, info) \<in> set c2i" by (rule map_of_SomeD)
      with "1.prems"(1) have "set (touched info) \<subseteq> fst ` set c2i"
        by (auto simp: touched_closed_def)
      with sub have "set (butlast walk @ touched info) \<subseteq> fst ` set c2i" by simp
      from "1.IH"(2)[OF ne refl refl nv info "1.prems"(1) this]
      show ?thesis using ne nv info by (simp add: cascade_walk_expand)
    qed
  qed
qed

lemma cascade_walk_distinct:
  "cascade_walk c2i walk visited = Inr r \<Longrightarrow> distinct visited \<Longrightarrow> distinct r"
proof (induction c2i walk visited rule: cascade_walk.induct)
  case (1 c2i walk visited)
  show ?case
  proof (cases "walk = []")
    case True
    with "1.prems" show ?thesis by (simp add: cascade_walk_Nil)
  next
    case ne: False
    show ?thesis
    proof (cases "last walk \<in> set visited")
      case True
      with ne "1.prems" "1.IH"(1)[OF ne refl refl True] show ?thesis
        by (simp add: cascade_walk_seen)
    next
      case nv: False
      show ?thesis
      proof (cases "map_of c2i (last walk)")
        case None
        with ne nv "1.prems" show ?thesis by (simp add: cascade_walk_missing)
      next
        case (Some info)
        have "distinct (set_add (last walk) visited)"
          using nv "1.prems"(2) by (simp add: set_add_def)
        with ne nv Some "1.prems" "1.IH"(2)[OF ne refl refl nv Some] show ?thesis
          by (simp add: cascade_walk_expand)
      qed
    qed
  qed
qed

lemma rtrancl_Image_closed:
  assumes "R `` S \<subseteq> S" shows "R\<^sup>* `` S \<subseteq> S"
proof
  fix y assume "y \<in> R\<^sup>* `` S"
  then obtain x where "x \<in> S" "(x, y) \<in> R\<^sup>*" by auto
  from this(2) this(1) show "y \<in> S"
    by (induction rule: rtrancl_induct) (use assms in auto)
qed

lemma cascade_walk_closure:
  "cascade_walk c2i walk visited = Inr r
     \<Longrightarrow> touched_rel c2i `` set visited \<subseteq> set visited \<union> set walk
     \<Longrightarrow> set r = set visited \<union> (touched_rel c2i)\<^sup>* `` set walk"
proof (induction c2i walk visited rule: cascade_walk.induct)
  case (1 c2i walk visited)
  let ?R = "touched_rel c2i"
  show ?case
  proof (cases "walk = []")
    case True
    with "1.prems" show ?thesis by (simp add: cascade_walk_Nil)
  next
    case ne: False
    let ?x = "last walk" and ?rest = "butlast walk"
    have walk: "set walk = insert ?x (set ?rest)" using ne by (rule last_butlast_set)
    show ?thesis
    proof (cases "?x \<in> set visited")
      case True
      have run: "cascade_walk c2i ?rest visited = Inr r"
        using "1.prems"(1) ne True by (simp add: cascade_walk_seen)
      have inv: "?R `` set visited \<subseteq> set visited \<union> set ?rest"
        using "1.prems"(2) True walk by auto
      have r: "set r = set visited \<union> ?R\<^sup>* `` set ?rest"
        by (rule "1.IH"(1)[OF ne refl refl True run inv])
      have "?R `` (set visited \<union> ?R\<^sup>* `` set ?rest) \<subseteq> set visited \<union> ?R\<^sup>* `` set ?rest"
        using inv by (auto intro: rtrancl_into_rtrancl)
      then have "?R\<^sup>* `` (set visited \<union> ?R\<^sup>* `` set ?rest)
                   \<subseteq> set visited \<union> ?R\<^sup>* `` set ?rest"
        by (rule rtrancl_Image_closed)
      then have "?R\<^sup>* `` {?x} \<subseteq> set visited \<union> ?R\<^sup>* `` set ?rest"
        using True by blast
      with r walk show ?thesis by auto
    next
      case nv: False
      show ?thesis
      proof (cases "map_of c2i ?x")
        case None
        with ne nv "1.prems" show ?thesis by (simp add: cascade_walk_missing)
      next
        case (Some info)
        have vis: "set (set_add ?x visited) = insert ?x (set visited)"
          by (auto simp: set_add_def)
        have run: "cascade_walk c2i (?rest @ touched info) (set_add ?x visited) = Inr r"
          using "1.prems"(1) ne nv Some by (simp add: cascade_walk_expand)
        have img: "?R `` {?x} = set (touched info)"
          using Some by (rule touched_rel_Image)
        have inv: "?R `` set (set_add ?x visited)
                     \<subseteq> set (set_add ?x visited) \<union> set (?rest @ touched info)"
          using "1.prems"(2) walk img unfolding vis by auto
        have r: "set r = set (set_add ?x visited) \<union> ?R\<^sup>* `` set (?rest @ touched info)"
          by (rule "1.IH"(2)[OF ne refl refl nv Some run inv])
        have "?R\<^sup>* `` {?x} = insert ?x (?R\<^sup>* `` (?R `` {?x}))"
          by (auto elim: converse_rtranclE intro: converse_rtrancl_into_rtrancl)
        then have "?R\<^sup>* `` {?x} = insert ?x (?R\<^sup>* `` set (touched info))"
          using img by simp
        with r walk show ?thesis unfolding vis by auto
      qed
    qed
  qed
qed


lemma cascade_result:
  assumes "cascade d X new_Transaction = Inr tr"
  shows "deleted tr = [X]"
    and "set (dirty tr) = (touched_rel (curve2info d))\<^sup>+ `` {X}"
proof -
  let ?R = "touched_rel (curve2info d)"
  show "deleted tr = [X]"
    using assms
    by (auto simp: cascade_def new_Transaction_def set_add_def Let_def
        split: option.splits sum.splits)
  show "set (dirty tr) = ?R\<^sup>+ `` {X}"
  proof (cases "map_of (curve2info d) X")
    case None
    then have "?R `` {X} = {}" by (rule touched_rel_unregistered)
    then have "?R\<^sup>+ `` {X} = {}"
      by (auto elim: converse_tranclE)
    moreover have "dirty tr = []"
      using assms None by (auto simp: cascade_def new_Transaction_def Let_def)
    ultimately show ?thesis by simp
  next
    case (Some info)
    from assms Some obtain r where
      run: "cascade_walk (curve2info d) (touched info) [] = Inr r" and r: "dirty tr = r"
      by (auto simp: cascade_def new_Transaction_def Let_def split: sum.splits)
    have "set r = set [] \<union> ?R\<^sup>* `` set (touched info)"
      by (rule cascade_walk_closure[OF run]) simp
    moreover have "?R `` {X} = set (touched info)"
      using Some by (rule touched_rel_Image)
    moreover have "?R\<^sup>+ `` {X} = ?R\<^sup>* `` (?R `` {X})"
      by (auto simp: trancl_unfold_left)
    ultimately show ?thesis using r by simp
  qed
qed

lemma cascade_total:
  assumes "touched_closed (curve2info d)"
  shows "\<exists>tr. cascade d X t0 = Inr tr"
proof (cases "map_of (curve2info d) X")
  case None
  then show ?thesis by (simp add: cascade_def Let_def)
next
  case (Some info)
  then have "(X, info) \<in> set (curve2info d)" by (rule map_of_SomeD)
  with assms have "set (touched info) \<subseteq> fst ` set (curve2info d)"
    by (auto simp: touched_closed_def)
  from cascade_walk_total[OF assms this]
  obtain r where "cascade_walk (curve2info d) (touched info)
      (dirty (t0\<lparr>deleted := set_add X (deleted t0)\<rparr>)) = Inr r" by blast
  with Some show ?thesis by (simp add: cascade_def Let_def)
qed

text \<open>
  Claim C3 (cascade closure).  Started on a fresh transaction, \<open>cascade\<close> returns
  whenever no \<open>touched\<close> set names an unregistered identity, and whenever it returns,
  the curve \<open>X\<close> is the one deleted identity and the dirty set is exactly the set of
  identities reachable from \<open>X\<close> by one or more \<open>touched\<close> links: an identity two
  links away is dirty, an identity with no path from \<open>X\<close> is not.
\<close>

theorem cascade_closure:
  "(touched_closed (curve2info d) \<longrightarrow> (\<exists>tr. cascade d X new_Transaction = Inr tr)) \<and>
   (\<forall>tr. cascade d X new_Transaction = Inr tr \<longrightarrow>
      deleted tr = [X] \<and>
      set (dirty tr) = (touched_rel (curve2info d))\<^sup>+ `` {X} \<and>
      (\<forall>a b. (X, a) \<in> touched_rel (curve2info d) \<and> (a, b) \<in> touched_rel (curve2info d)
          \<longrightarrow> b \<in> set (dirty tr)) \<and>
      (\<forall>y. (X, y) \<notin> (touched_rel (curve2info d))\<^sup>+ \<longrightarrow> y \<notin> set (dirty tr)))"
proof (intro conjI allI impI)
  assume "touched_closed (curve2info d)"
  then show "\<exists>tr. cascade d X new_Transaction = Inr tr" by (rule cascade_total)
next
  fix tr assume run: "cascade d X new_Transaction = Inr tr"
  show "deleted tr = [X]" by (rule cascade_result(1)[OF run])
  show eq: "set (dirty tr) = (touched_rel (curve2info d))\<^sup>+ `` {X}"
    by (rule cascade_result(2)[OF run])
  { fix a b
    assume "(X, a) \<in> touched_rel (curve2info d) \<and> (a, b) \<in> touched_rel (curve2info d)"
    then have "(X, b) \<in> (touched_rel (curve2info d))\<^sup>+" by (auto intro: trancl_trans)
    then show "b \<in> set (dirty tr)" using eq by auto }
  { fix y assume "(X, y) \<notin> (touched_rel (curve2info d))\<^sup>+"
    then show "y \<notin> set (dirty tr)" using eq by auto }
qed

lemma chain_db_closed: "touched_closed (curve2info chain_db)"
  by (simp add: touched_closed_def chain_db_def example_info_def new_CurveInfo_def)

lemma chain_db_cascade:
  "cascade chain_db 1 new_Transaction = Inr \<lparr>dirty = [2, 3, 1], deleted = [1], added = []\<rparr>"
  by (simp add: cascade_def chain_db_def example_info_def new_CurveInfo_def new_Transaction_def
      set_add_def cascade_walk.simps)

theorem cascade_closure_witness:
  "touched_closed (curve2info chain_db) \<and>
   cascade chain_db 1 new_Transaction = Inr \<lparr>dirty = [2, 3, 1], deleted = [1], added = []\<rparr> \<and>
   (1, 2) \<in> touched_rel (curve2info chain_db) \<and> (2, 3) \<in> touched_rel (curve2info chain_db) \<and>
   set [2, 3, 1::nat] = (touched_rel (curve2info chain_db))\<^sup>+ `` {1} \<and>
   (1, 4) \<notin> (touched_rel (curve2info chain_db))\<^sup>+"
proof -
  have R12: "(1, 2) \<in> touched_rel (curve2info chain_db)"
    and R23: "(2, 3) \<in> touched_rel (curve2info chain_db)"
    by (simp_all add: touched_rel_def chain_db_def example_info_def new_CurveInfo_def)
  from cascade_closure[of chain_db 1] chain_db_cascade
  have eq: "set (dirty \<lparr>dirty = [2, 3, 1], deleted = [1], added = []\<rparr>)
      = (touched_rel (curve2info chain_db))\<^sup>+ `` {1}"
    by blast
  have "(4::nat) \<notin> set (dirty \<lparr>dirty = [2, 3, 1], deleted = [1], added = []\<rparr>)" by simp
  then have "4 \<notin> (touched_rel (curve2info chain_db))\<^sup>+ `` {1}" unfolding eq .
  then have "(1, 4) \<notin> (touched_rel (curve2info chain_db))\<^sup>+" by blast
  with chain_db_closed chain_db_cascade R12 R23 eq show ?thesis by simp
qed

text \<open>
  Claim C9 (the walk never dereferences a missing entry, and ends).  When every identity
  in a registered \<open>touched\<close> set has a registry entry, the walk started on registered
  identities returns a visited set instead of throwing, and so does \<open>cascade\<close> for
  any curve and any transaction.  \<open>cascade_walk\<close> is a total function: its termination
  proof counts the registered identities not yet visited, and each identity enters the
  visited list once, so a duplicate-free dirty set stays duplicate-free.
\<close>

theorem cascade_walk_safe:
  assumes "touched_closed (curve2info d)"
  shows "(\<forall>walk visited. set walk \<subseteq> fst ` set (curve2info d) \<longrightarrow>
            (\<exists>r. cascade_walk (curve2info d) walk visited = Inr r \<and>
                 (distinct visited \<longrightarrow> distinct r))) \<and>
         (\<exists>tr. cascade d X t0 = Inr tr \<and> (distinct (dirty t0) \<longrightarrow> distinct (dirty tr)))"
proof (intro conjI allI impI)
  fix walk visited
  assume "set walk \<subseteq> fst ` set (curve2info d)"
  from cascade_walk_total[OF assms this]
  obtain r where r: "cascade_walk (curve2info d) walk visited = Inr r" by blast
  then have "distinct visited \<longrightarrow> distinct r" by (auto dest: cascade_walk_distinct)
  with r show "\<exists>r. cascade_walk (curve2info d) walk visited = Inr r \<and>
                 (distinct visited \<longrightarrow> distinct r)" by blast
next
  from cascade_total[OF assms] obtain tr where tr: "cascade d X t0 = Inr tr" by blast
  have "distinct (dirty t0) \<longrightarrow> distinct (dirty tr)"
    using tr
    by (auto simp: cascade_def Let_def split: option.splits sum.splits
        dest: cascade_walk_distinct)
  with tr show "\<exists>tr. cascade d X t0 = Inr tr \<and> (distinct (dirty t0) \<longrightarrow> distinct (dirty tr))"
    by blast
qed

theorem cascade_walk_safe_witness:
  "touched_closed (curve2info chain_db) \<and>
   cascade_walk (curve2info chain_db) [2] [] = Inr [2, 3, 1] \<and> distinct [2, 3, 1::nat] \<and>
   (\<exists>tr. cascade chain_db 1 new_Transaction = Inr tr \<and> distinct (dirty tr))"
proof -
  have run: "cascade_walk (curve2info chain_db) [2] [] = Inr [2, 3, 1]"
    by (simp add: chain_db_def example_info_def new_CurveInfo_def set_add_def
        cascade_walk.simps)
  from cascade_walk_safe[OF chain_db_closed, of 1 new_Transaction]
  have "\<exists>tr. cascade chain_db 1 new_Transaction = Inr tr \<and> distinct (dirty tr)"
    by (simp add: new_Transaction_def)
  with chain_db_closed run show ?thesis by simp
qed

section \<open>Looking up an identity without an entry\<close>

text \<open>
  Claim C8 says that looking up an unregistered identity signals a failure.  The code
  returns \<open>Map.get\<close>'s result unchecked: on the registry below, identity \<open>9\<close> has no
  entry, and the lookup returns \<open>undefined\<close> instead of throwing.
\<close>

theorem lookup_unregistered_counterexample:
  "map_of (curve2info chain_db) 9 = None \<and>
   lookup chain_db 9 = Returns None \<and> lookup chain_db 9 \<noteq> Throws TypeError"
  by (simp add: lookup_def chain_db_def)

text \<open>
  Claim C8 as amended: \<open>lookup\<close> never throws; for an identity without a registry entry
  it returns \<open>undefined\<close>, and for a registered identity it returns that entry.
\<close>

theorem lookup_returns_get:
  "(\<forall>e. lookup d n \<noteq> Throws e) \<and>
   (n \<notin> fst ` set (curve2info d) \<longrightarrow> lookup d n = Returns None) \<and>
   (\<forall>info. map_of (curve2info d) n = Some info \<longrightarrow> lookup d n = Returns (Some info))"
  by (simp add: lookup_def map_of_eq_None_iff)

theorem lookup_returns_get_witness:
  "9 \<notin> fst ` set (curve2info chain_db) \<and> lookup chain_db 9 = Returns None \<and>
   map_of (curve2info chain_db) 4 = Some (example_info []) \<and>
   lookup chain_db 4 = Returns (Some (example_info []))"
proof -
  have a: "9 \<notin> fst ` set (curve2info chain_db)"
    and b: "map_of (curve2info chain_db) 4 = Some (example_info [])"
    by (simp_all add: chain_db_def)
  from lookup_returns_get[of chain_db 9] a have "lookup chain_db 9 = Returns None" by blast
  moreover from lookup_returns_get[of chain_db 4] b
  have "lookup chain_db 4 = Returns (Some (example_info []))" by blast
  ultimately show ?thesis using a b by simp
qed

section \<open>Removing a curve without an entry\<close>

text \<open>
  Claim C10.  For a curve without a registry entry, \<open>cascade\<close> only records the curve as
  deleted: on a fresh transaction the deleted set is that curve alone and the dirty set
  is empty, on any transaction the dirty and added sets are unchanged.  \<open>removeInfo\<close>
  returns \<open>undefined\<close> and leaves the whole database unchanged: the registry keeps its
  entries and the store keeps its fragments.  Neither raises an error.
\<close>

theorem remove_unregistered_noop:
  assumes "map_of (curve2info d) c = None"
  shows "cascade d c new_Transaction = Inr \<lparr>dirty = [], deleted = [c], added = []\<rparr> \<and>
         cascade d c tr = Inr (tr\<lparr>deleted := set_add c (deleted tr)\<rparr>) \<and>
         removeInfo c d = (None, d)"
  using assms
  by (simp add: cascade_def removeInfo_def new_Transaction_def set_add_def)

theorem remove_unregistered_noop_witness:
  "map_of (curve2info chain_db) 9 = None \<and>
   cascade chain_db 9 new_Transaction = Inr \<lparr>dirty = [], deleted = [9], added = []\<rparr> \<and>
   cascade chain_db 9 \<lparr>dirty = [2], deleted = [1], added = [5]\<rparr>
     = Inr \<lparr>dirty = [2], deleted = [1, 9], added = [5]\<rparr> \<and>
   removeInfo 9 chain_db = (None, chain_db)"
proof -
  have a: "map_of (curve2info chain_db) 9 = None" by (simp add: chain_db_def)
  from remove_unregistered_noop[OF a, of "\<lparr>dirty = [2], deleted = [1], added = [5]\<rparr>"] a
  show ?thesis by (simp add: set_add_def)
qed

section \<open>Properties of commit\<close>

lemma teardown_dirty_eq: "teardown_dirty xs d = teardown_all xs d"
  by (induction xs arbitrary: d) (simp_all add: teardown_all_def)

lemma teardown_deleted_eq:
  "teardown_deleted data xs d = teardown_all [x \<leftarrow> xs. x \<notin> set (dirty data)] d"
  by (induction xs arbitrary: d) (simp_all add: teardown_all_def)

lemma teardown_all_append: "teardown_all (xs @ ys) d = teardown_all ys (teardown_all xs d)"
  by (simp add: teardown_all_def)

lemma teardown_all_Cons: "teardown_all (x # xs) d = teardown_all xs (snd (removeInfo x d))"
  by (simp add: teardown_all_def)

lemma add_each_append:
  "add_each k (xs @ ys) d =
     (case add_each k xs d of Inl e \<Rightarrow> Inl e | Inr d1 \<Rightarrow> add_each k ys d1)"
  by (induction xs arbitrary: d) (simp_all split: sum.splits)

lemma readd_dirty_eq:
  "readd_dirty k data xs d = add_each k [x \<leftarrow> xs. x \<notin> set (deleted data)] d"
  by (induction xs arbitrary: d) (simp_all split: sum.splits)

lemma readd_added_eq:
  "readd_added k data xs d =
     add_each k [x \<leftarrow> xs. x \<notin> set (deleted data) \<and> x \<notin> set (dirty data)] d"
  by (induction xs arbitrary: d) (simp_all split: sum.splits)

lemma removeInfo_registry:
  "map_of (curve2info (snd (removeInfo x d))) = (map_of (curve2info d))(x := None)"
  by (cases "map_of (curve2info d) x") (auto simp: removeInfo_def delete_conv')

lemma removeInfo_store: "db (snd (removeInfo x d)) = db d"
  by (cases "map_of (curve2info d) x") (simp_all add: removeInfo_def)

lemma removeInfo_pending:
  "pending (snd (removeInfo x d)) =
     pending d @ (case map_of (curve2info d) x of None \<Rightarrow> [] | Some info \<Rightarrow> fragments info)"
  by (cases "map_of (curve2info d) x") (simp_all add: removeInfo_def)

lemma teardown_all_registry:
  "map_of (curve2info (teardown_all xs d)) y =
     (if y \<in> set xs then None else map_of (curve2info d) y)"
proof (induction xs arbitrary: d)
  case Nil
  show ?case by (simp add: teardown_all_def)
next
  case (Cons x xs)
  show ?case unfolding teardown_all_Cons by (simp add: Cons.IH removeInfo_registry)
qed

lemma teardown_all_store: "db (teardown_all xs d) = db d"
proof (induction xs arbitrary: d)
  case Nil
  show ?case by (simp add: teardown_all_def)
next
  case (Cons x xs)
  show ?case unfolding teardown_all_Cons by (simp add: Cons.IH removeInfo_store)
qed

lemma teardown_all_keeps: "set (pending d) \<subseteq> set (pending (teardown_all xs d))"
proof (induction xs arbitrary: d)
  case Nil
  show ?case by (simp add: teardown_all_def)
next
  case (Cons x xs)
  have "set (pending d) \<subseteq> set (pending (snd (removeInfo x d)))"
    by (simp add: removeInfo_pending)
  with Cons.IH[of "snd (removeInfo x d)"] show ?case unfolding teardown_all_Cons by blast
qed

lemma teardown_all_pending:
  assumes "y \<in> set xs" and "map_of (curve2info d) y = Some info"
  shows "set (fragments info) \<subseteq> set (pending (teardown_all xs d))"
  using assms
proof (induction xs arbitrary: d)
  case Nil
  then show ?case by simp
next
  case (Cons x xs)
  show ?case
  proof (cases "x = y")
    case True
    with Cons.prems(2) have "set (fragments info) \<subseteq> set (pending (snd (removeInfo x d)))"
      by (simp add: removeInfo_pending)
    with teardown_all_keeps[of "snd (removeInfo x d)" xs] show ?thesis
      unfolding teardown_all_Cons by blast
  next
    case False
    with Cons.prems have "y \<in> set xs"
      and "map_of (curve2info (snd (removeInfo x d))) y = Some info"
      by (simp_all add: removeInfo_registry)
    from Cons.IH[OF this] show ?thesis unfolding teardown_all_Cons .
  qed
qed

lemma add_each_pending:
  assumes "add_each k xs d = Inr d1"
  shows "set (pending d) \<subseteq> set (pending d1)"
  using assms
proof (induction xs arbitrary: d)
  case Nil
  then show ?case by simp
next
  case (Cons x xs)
  from Cons.prems obtain d2 where step: "add k x d = Inr d2"
    and rest: "add_each k xs d2 = Inr d1"
    by (auto split: sum.splits)
  from add_pending[OF step] have "set (pending d) \<subseteq> set (pending d2)" by auto
  with Cons.IH[OF rest] show ?case by blast
qed


lemma crossed_db_teardown:
  "teardown_all [1, 2] crossed_db =
     crossed_db\<lparr>curve2info := [], pending := [103, 104, 101, 102]\<rparr>"
  by (simp add: teardown_all_def removeInfo_def crossed_db_def)

lemma crossed_db_commit:
  "commit cross_kernel \<lparr>dirty = [1, 2], deleted = [2], added = []\<rparr> crossed_db =
     Inr \<lparr>curve2info =
            [(1, \<lparr>planarCurve = 2, placement = 0, touched = [], fragments = [105],
                   joints_start = None, joints_stop = None\<rparr>)],
          id2planarCurve = [(0, segment 10), (1, segment 20), (2, segment 10)],
          placements = [0], counter = 3,
          db = \<lparr>items =
                  [(105, \<lparr>item_placement = 0, item_piece = Whole (segment 10),
                          item_start = - 1, item_stop = - 1, item_owner = 1\<rparr>)],
                next_simpleName = 106\<rparr>,
          pending = []\<rparr>"
  by code_simp


section \<open>Properties of the mementos\<close>

text \<open>Restoring the memento that was just saved leaves the registry, read through the
  database object, as it was.\<close>

lemma restore_save_roundtrip:
  "live (restoreFromMemento (fst (saveToMemento w)) (snd (saveToMemento w))) = live w"
  by (simp add: live_def read_infos_def restoreFromMemento_def saveToMemento_def Let_def)

text \<open>\<open>removeInfo\<close> on the heap is \<open>removeInfo\<close> on the registry read through the
  references.\<close>

lemma delete_read: "AList.delete c (map (\<lambda>(n, i). (n, f i)) m) = map (\<lambda>(n, i). (n, f i)) (AList.delete c m)"
  by (induction m) auto

lemma removeInfo_heap_live: "live (removeInfo_heap c w) = snd (removeInfo c (live w))"
proof (cases "map_of (info_maps (objects w) (this_curve2info (this w))) c")
  case None
  then have "map_of (read_infos (objects w) (this_curve2info (this w))) c = None"
    by (simp add: read_infos_def map_of_map)
  with None show ?thesis by (simp add: removeInfo_heap_def removeInfo_def live_def Let_def)
next
  case (Some i)
  then have "map_of (read_infos (objects w) (this_curve2info (this w))) c
      = Some (infos (objects w) i)"
    by (simp add: read_infos_def map_of_map)
  with Some show ?thesis
    by (simp add: removeInfo_heap_def removeInfo_def live_def read_infos_def delete_read Let_def)
qed

text \<open>\<open>saveToMemento\<close> copies the maps: as long as the database object keeps its own
  collections, deleting an entry of the live registry leaves the identities the memento
  holds.\<close>

lemma save_copies_map:
  assumes "allocated w"
  shows "map fst (fst (snapshot (fst (saveToMemento w))
                         (removeInfo_heap c (snd (saveToMemento w)))))
           = map fst (curve2info (live w))"
proof -
  let ?w = "snd (saveToMemento w)"
  from assms have ne: "this_curve2info (this w) \<noteq> next_ref (objects w)"
    by (simp add: allocated_def)
  show ?thesis
  proof (cases "map_of (info_maps (objects ?w) (this_curve2info (this ?w))) c")
    case None
    then show ?thesis
      by (simp add: removeInfo_heap_def snapshot_def saveToMemento_def Let_def live_def
          read_infos_def comp_def case_prod_unfold)
  next
    case (Some i)
    with ne show ?thesis
      by (simp add: removeInfo_heap_def snapshot_def saveToMemento_def Let_def live_def
          read_infos_def comp_def case_prod_unfold)
  qed
qed

text \<open>It does not copy the \<open>CurveInfo\<close> objects: after a memento of the two crossing
  segments is saved, curve \<open>1\<close> of the live registry is made to touch an identity \<open>7\<close>, and
  the entry the memento holds for curve \<open>1\<close> touches \<open>7\<close> as well.\<close>

lemma save_shares_infos:
  "\<exists>w. touch_heap 1 7 (snd (saveToMemento crossed_world)) = Inr w \<and>
       map_of (fst (snapshot saved_memento (snd (saveToMemento crossed_world)))) 1
         = Some \<lparr>planarCurve = 0, placement = 0, touched = [1, 2], fragments = [103, 104],
                 joints_start = None, joints_stop = None\<rparr> \<and>
       map_of (fst (snapshot saved_memento w)) 1
         = Some \<lparr>planarCurve = 0, placement = 0, touched = [1, 2, 7], fragments = [103, 104],
                 joints_start = None, joints_stop = None\<rparr>"
  by (simp add: touch_heap_def saved_memento_def saveToMemento_def snapshot_def read_infos_def
      crossed_world_def Let_def set_add_def)

text \<open>\<open>restoreFromMemento\<close> does not copy: after it, a teardown in the live registry is
  a teardown in the map of the memento.\<close>

lemma restore_shares_collections:
  "fst (snapshot m (removeInfo_heap c (restoreFromMemento m w))) =
     curve2info (snd (removeInfo c (live (restoreFromMemento m w))))"
proof -
  have "fst (snapshot m (removeInfo_heap c (restoreFromMemento m w)))
      = curve2info (live (removeInfo_heap c (restoreFromMemento m w)))"
    by (cases "map_of (info_maps (objects w) (m_curve2info m)) c")
      (simp_all add: snapshot_def live_def removeInfo_heap_def restoreFromMemento_def Let_def)
  then show ?thesis by (simp only: removeInfo_heap_live)
qed

text \<open>
  Claim C2 (memento round trip) on a concrete run.  The registry holds the two crossing
  segments.  A memento is saved and restored at once: the registry reads as before.
  Then curve \<open>2\<close> is torn down in the live registry.  The memento, held separately,
  had an entry for curve \<open>2\<close> before that mutation and has none after it, and a second
  restore from it gives a registry without curve \<open>2\<close>: the snapshot was altered,
  because \<open>restoreFromMemento\<close> installs the memento's own maps where the claim says it
  installs fresh copies.
\<close>

theorem restore_aliases_memento:
  "live restored_world = live crossed_world \<and>
   map fst (fst (snapshot saved_memento restored_world)) = [1, 2] \<and>
   map fst (fst (snapshot saved_memento mutated_world)) = [1] \<and>
   map fst (curve2info (live (restoreFromMemento saved_memento mutated_world))) = [1]"
  by (simp add: saved_memento_def restored_world_def mutated_world_def removeInfo_heap_def
      saveToMemento_def restoreFromMemento_def snapshot_def live_def read_infos_def
      crossed_world_def crossed_db_def Let_def)

section \<open>The spans cut out of a curve\<close>

lemma touch_Inr:
  assumes "n \<in> fst ` set c2i"
  shows "\<exists>c2i1. touch (Some n) x c2i = Inr c2i1 \<and> fst ` set c2i1 = fst ` set c2i"
proof -
  from assms obtain info where info: "map_of c2i n = Some info"
    by (metis map_of_eq_None_iff not_Some_eq)
  have "fst ` set (AList.update n (info\<lparr>touched := set_add x (touched info)\<rparr>) c2i)
          = fst ` set c2i"
    using assms by (auto simp: AList.dom_update)
  with info show ?thesis by (simp add: touch_def)
qed

text \<open>When it returns, the walk has appended one trim for each pair of consecutive
  parameters that passes the test \<open>cuttable\<close>, and nothing else.\<close>

lemma trim_loop_trims:
  assumes "trim_loop k p2i owner c1 visited xs (s, trs, c2i, q) = Inr (s1, trs1, c2i1, q1)"
  shows "trs1 = trs @ map (\<lambda>(a, b). \<lparr>trimmed = Trimmed c1 a b, start = a, stop = b\<rparr>)
            (filter (\<lambda>(a, b). cuttable k a b)
               (zip (s # map (\<lambda>x. t (on1 x)) xs) (map (\<lambda>x. t (on1 x)) xs)))"
  using assms
proof (induction xs arbitrary: s trs c2i q)
  case Nil
  then show ?case by simp
next
  case (Cons x xs)
  show ?case
  proof (cases "trim_step k p2i owner c1 visited x (s, trs, c2i, q)")
    case (Inl e)
    with Cons.prems show ?thesis by simp
  next
    case (Inr acc)
    from Inr obtain n c2i2 where
      acc: "acc = (t (on1 x),
          (if cuttable k s (t (on1 x))
           then trs @ [\<lparr>trimmed = Trimmed c1 s (t (on1 x)), start = s, stop = t (on1 x)\<rparr>]
           else trs),
          c2i2,
          (if Id (on_curve (on2 x)) \<notin> set visited
           then AList.update (Id (on_curve (on2 x))) (on_curve (on2 x)) q else q))"
      by (rule trim_step_cases)
    from Cons.prems Inr
    have "trim_loop k p2i owner c1 visited xs acc = Inr (s1, trs1, c2i1, q1)" by simp
    from Cons.IH[OF this[unfolded acc]] show ?thesis by simp
  qed
qed

lemma trim_loop_returns:
  assumes "n \<in> fst ` set c2i"
    and "\<forall>x \<in> set xs. Id (on_curve (on2 x)) \<in> fst ` set p2i"
  shows "\<exists>r. trim_loop k p2i (Some n) c1 visited xs (s, trs, c2i, q) = Inr r"
  using assms
proof (induction xs arbitrary: s trs c2i q)
  case Nil
  show ?case by simp
next
  case (Cons x xs)
  from Cons.prems(2) obtain m where m: "map_of p2i (Id (on_curve (on2 x))) = Some m"
    by (metis list.set_intros(1) map_of_eq_None_iff not_Some_eq)
  from touch_Inr[OF Cons.prems(1)] obtain c2i2 where
    c2i2: "touch (Some n) m c2i = Inr c2i2" and keys: "fst ` set c2i2 = fst ` set c2i"
    by blast
  from Cons.prems have "n \<in> fst ` set c2i2"
    and "\<forall>x \<in> set xs. Id (on_curve (on2 x)) \<in> fst ` set p2i"
    by (simp_all add: keys)
  from Cons.IH[OF this] show ?case
    by (simp add: trim_step_Inr[OF m c2i2])
qed

text \<open>
  Claim C6 says that a span is skipped exactly when it is narrower than \<open>1e-6\<close>.  On
  the segment below, the crossing at parameter \<open>1 / 262144\<close> leaves the span from \<open>0\<close>
  to \<open>1 / 262144\<close>, which is more than three times as wide as \<open>1e-6\<close>; the walk produces
  no fragment for it, only the fragment from \<open>1 / 262144\<close> to \<open>1\<close>.  The parameters
  \<open>0\<close>, \<open>1 / 262144\<close> and \<open>1\<close> are doubles and so are their differences: on them the
  subtraction of the machine does not round, as the subtraction of \<open>cross_kernel\<close>.
\<close>

theorem span_threshold_counterexample:
  "(1 / 1000000 :: real) \<le> \<bar>0 - 1 / 262144\<bar> \<and>
   subtract cross_kernel 0 (1 / 262144) = 0 - 1 / 262144 \<and>
   trim_loop cross_kernel [(10, 1), (20, 2)] (Some 1) (segment 10) [10]
     [self_cross 0 (segment 10),
      cross_at (segment 10) (1 / 262144) (segment 20) (1 / 2),
      self_cross 1 (segment 10)]
     (0, [], [(1, new_CurveInfo 0 0), (2, new_CurveInfo 1 0)], [])
   = Inr (1,
          [\<lparr>trimmed = Trimmed (segment 10) (1 / 262144) 1, start = 1 / 262144, stop = 1\<rparr>],
          [(1, (new_CurveInfo 0 0)\<lparr>touched := [1, 2]\<rparr>), (2, new_CurveInfo 1 0)],
          [(20, segment 20)])"
  by (simp add: trim_step_def touch_def cuttable_def ten_e_minus_6_def cross_kernel_def
      self_cross_def cross_at_def segment_def new_CurveInfo_def set_add_def)

text \<open>
  Claim C6 as amended.  The walk over the sorted crosses takes consecutive parameter
  values as the \<open>start\<close> and \<open>stop\<close> of a span, beginning at \<open>start\<close>.  A span produces
  the fragment trimmed from \<open>start\<close> to \<open>stop\<close> exactly when the absolute value of the
  double \<open>start - stop\<close> is greater than the double \<open>10e-6\<close>, and is skipped otherwise.
  The double \<open>10e-6\<close> is \<open>5902958103587057 / 2 ^ 69\<close>, which is more than \<open>1e-5\<close> by less
  than \<open>1e-21\<close>.  The walk returns whenever the entry to be touched is registered and
  every crossing curve is known to \<open>planar2instance\<close>.
\<close>

theorem trim_loop_spans:
  assumes "n \<in> fst ` set c2i"
    and "\<forall>x \<in> set xs. Id (on_curve (on2 x)) \<in> fst ` set p2i"
  shows "(\<exists>s1 c2i1 q1.
     trim_loop k p2i (Some n) c1 visited xs (s, [], c2i, q) =
       Inr (s1,
            map (\<lambda>(a, b). \<lparr>trimmed = Trimmed c1 a b, start = a, stop = b\<rparr>)
              (filter (\<lambda>(a, b). \<bar>subtract k a b\<bar> > ten_e_minus_6)
                 (zip (s # map (\<lambda>x. t (on1 x)) xs) (map (\<lambda>x. t (on1 x)) xs))),
            c2i1, q1)) \<and>
     ten_e_minus_6 = 5902958103587057 / 2 ^ 69 \<and>
     1 / 100000 < ten_e_minus_6 \<and> ten_e_minus_6 < 1 / 100000 + 1 / 10 ^ 21"
proof (intro conjI)
  from trim_loop_returns[OF assms] obtain r where
    r: "trim_loop k p2i (Some n) c1 visited xs (s, [], c2i, q) = Inr r" by blast
  obtain s1 trs1 c2i1 q1 where split: "r = (s1, trs1, c2i1, q1)" by (cases r)
  have "(\<lambda>(a, b). cuttable k a b) = (\<lambda>(a, b). \<bar>subtract k a b\<bar> > ten_e_minus_6)"
    by (simp add: cuttable_def fun_eq_iff)
  with trim_loop_trims[OF r[unfolded split]]
  have "trs1 = map (\<lambda>(a, b). \<lparr>trimmed = Trimmed c1 a b, start = a, stop = b\<rparr>)
              (filter (\<lambda>(a, b). \<bar>subtract k a b\<bar> > ten_e_minus_6)
                 (zip (s # map (\<lambda>x. t (on1 x)) xs) (map (\<lambda>x. t (on1 x)) xs)))"
    by simp
  with r split show "\<exists>s1 c2i1 q1.
     trim_loop k p2i (Some n) c1 visited xs (s, [], c2i, q) =
       Inr (s1,
            map (\<lambda>(a, b). \<lparr>trimmed = Trimmed c1 a b, start = a, stop = b\<rparr>)
              (filter (\<lambda>(a, b). \<bar>subtract k a b\<bar> > ten_e_minus_6)
                 (zip (s # map (\<lambda>x. t (on1 x)) xs) (map (\<lambda>x. t (on1 x)) xs))),
            c2i1, q1)"
    by simp
  show "ten_e_minus_6 = 5902958103587057 / 2 ^ 69" by (simp add: ten_e_minus_6_def)
  show "1 / 100000 < ten_e_minus_6" by (simp add: ten_e_minus_6_def)
  show "ten_e_minus_6 < 1 / 100000 + 1 / 10 ^ 21" by (simp add: ten_e_minus_6_def)
qed

text \<open>A run of the walk: the crossings at \<open>1 / 2\<close> and at \<open>1 / 2 + 1 / 262144\<close> leave a
  span of width \<open>1 / 262144\<close> between them, which is skipped; the spans before and after
  are cut out.  All parameters and differences are doubles.\<close>

theorem trim_loop_spans_witness:
  "1 \<in> fst ` set [(1 :: name, new_CurveInfo 0 0), (2, new_CurveInfo 1 0)] \<and>
   map (\<lambda>x. Id (on_curve (on2 x)))
     [self_cross 0 (segment 10),
      cross_at (segment 10) (1 / 2) (segment 20) (1 / 2),
      cross_at (segment 10) (131073 / 262144) (segment 20) (3 / 4),
      self_cross 1 (segment 10)] = [10, 20, 20, 10] \<and>
   fst ` set [(10 :: curve2d_id, 1 :: name), (20, 2)] = {10, 20} \<and>
   (\<exists>s1 c2i1 q1.
      trim_loop cross_kernel [(10, 1), (20, 2)] (Some 1) (segment 10) [10]
        [self_cross 0 (segment 10),
         cross_at (segment 10) (1 / 2) (segment 20) (1 / 2),
         cross_at (segment 10) (131073 / 262144) (segment 20) (3 / 4),
         self_cross 1 (segment 10)]
        (0, [], [(1, new_CurveInfo 0 0), (2, new_CurveInfo 1 0)], [])
      = Inr (s1,
             [\<lparr>trimmed = Trimmed (segment 10) 0 (1 / 2), start = 0, stop = 1 / 2\<rparr>,
              \<lparr>trimmed = Trimmed (segment 10) (131073 / 262144) 1,
                start = 131073 / 262144, stop = 1\<rparr>],
             c2i1, q1))"
proof -
  let ?xs = "[self_cross 0 (segment 10),
              cross_at (segment 10) (1 / 2) (segment 20) (1 / 2),
              cross_at (segment 10) (131073 / 262144) (segment 20) (3 / 4),
              self_cross 1 (segment 10)]"
  let ?c2i = "[(1 :: name, new_CurveInfo 0 0), (2, new_CurveInfo 1 0)]"
  let ?p2i = "[(10 :: curve2d_id, 1 :: name), (20, 2)]"
  have a: "1 \<in> fst ` set ?c2i" by simp
  have b: "\<forall>x \<in> set ?xs. Id (on_curve (on2 x)) \<in> fst ` set ?p2i"
    by (simp add: self_cross_def cross_at_def segment_def)
  have sub: "subtract cross_kernel = (\<lambda>a b. a - b)" by (simp add: cross_kernel_def)
  from trim_loop_spans[OF a b, of cross_kernel "segment 10" "[10]" 0 "[]"]
  have "\<exists>s1 c2i1 q1.
      trim_loop cross_kernel ?p2i (Some 1) (segment 10) [10] ?xs (0, [], ?c2i, [])
      = Inr (s1,
             [\<lparr>trimmed = Trimmed (segment 10) 0 (1 / 2), start = 0, stop = 1 / 2\<rparr>,
              \<lparr>trimmed = Trimmed (segment 10) (131073 / 262144) 1,
                start = 131073 / 262144, stop = 1\<rparr>],
             c2i1, q1)"
    unfolding sub by (simp add: self_cross_def cross_at_def ten_e_minus_6_def)
  moreover have "map (\<lambda>x. Id (on_curve (on2 x))) ?xs = [10, 20, 20, 10]"
    by (simp add: self_cross_def cross_at_def segment_def)
  moreover have "fst ` set ?p2i = {10, 20}" by simp
  ultimately show ?thesis using a by blast
qed

section \<open>Joints\<close>

lemma write_joint_Inr:
  assumes "map_of c2i n = Some info"
  shows "write_joint (Some n) b j c2i =
     Inr (AList.update n (if b then info\<lparr>joints_start := Some j\<rparr>
                          else info\<lparr>joints_stop := Some j\<rparr>) c2i)"
  using assms by (simp add: write_joint_def)

lemma addJoint_interior:
  assumes "t (on1 x) \<noteq> TMin (on_curve (on1 x))" and "t (on1 x) \<noteq> TMax (on_curve (on1 x))"
  shows "addJoint x p2i c2i = Inr c2i"
  using assms by (simp add: addJoint_def Let_def)

lemma addJoint_unfold:
  assumes "\<not> (t (on1 x) \<noteq> TMin (on_curve (on1 x)) \<and> t (on1 x) \<noteq> TMax (on_curve (on1 x)))"
  shows "addJoint x p2i c2i =
     (case write_joint (map_of p2i (Id (on_curve (on1 x))))
             (t (on1 x) = TMin (on_curve (on1 x)))
             \<lparr>joint_on1 = point_of (map_of p2i (Id (on_curve (on1 x)))) (on1 x),
               joint_on2 = point_of (map_of p2i (Id (on_curve (on2 x)))) (on2 x)\<rparr> c2i of
        Inl e \<Rightarrow> Inl e
      | Inr c2i1 \<Rightarrow>
          if t (on2 x) = TMin (on_curve (on2 x))
          then write_joint (map_of p2i (Id (on_curve (on2 x)))) True
                 \<lparr>joint_on1 = point_of (map_of p2i (Id (on_curve (on2 x)))) (on2 x),
                   joint_on2 = point_of (map_of p2i (Id (on_curve (on1 x)))) (on1 x)\<rparr> c2i1
          else if t (on2 x) = TMax (on_curve (on2 x))
          then write_joint (map_of p2i (Id (on_curve (on2 x)))) False
                 \<lparr>joint_on1 = point_of (map_of p2i (Id (on_curve (on2 x)))) (on2 x),
                   joint_on2 = point_of (map_of p2i (Id (on_curve (on1 x)))) (on1 x)\<rparr> c2i1
          else Inr c2i1)"
  unfolding addJoint_def Let_def point_of_def if_not_P[OF assms] ..

text \<open>What \<open>addJoint\<close> writes when the parameter on the first curve is at an end of that
  curve.  Both sides of the cross may belong to the same user curve.\<close>

lemma addJoint_writes:
  assumes b: "t (on1 x) = TMin (on_curve (on1 x)) \<or> t (on1 x) = TMax (on_curve (on1 x))"
    and p1: "map_of p2i (Id (on_curve (on1 x))) = Some n1"
    and p2: "map_of p2i (Id (on_curve (on2 x))) = Some n2"
    and r1: "map_of c2i n1 = Some info1" and r2: "map_of c2i n2 = Some info2"
  shows "addJoint x p2i c2i =
     Inr (AList.update n2
            (write_end (on2 x) (joint_at p2i (on2 x) (on1 x))
               (if n2 = n1 then write_end (on1 x) (joint_at p2i (on1 x) (on2 x)) info1
                else info2))
            (AList.update n1 (write_end (on1 x) (joint_at p2i (on1 x) (on2 x)) info1) c2i))"
proof -
  let ?j12 = "joint_at p2i (on1 x) (on2 x)"
  let ?j21 = "joint_at p2i (on2 x) (on1 x)"
  let ?first = "write_end (on1 x) ?j12 info1"
  let ?c2i1 = "AList.update n1 ?first c2i"
  let ?info2 = "if n2 = n1 then ?first else info2"
  have guard: "\<not> (t (on1 x) \<noteq> TMin (on_curve (on1 x)) \<and> t (on1 x) \<noteq> TMax (on_curve (on1 x)))"
    using b by blast
  have first_eq: "(if t (on1 x) = TMin (on_curve (on1 x)) then info1\<lparr>joints_start := Some ?j12\<rparr>
                   else info1\<lparr>joints_stop := Some ?j12\<rparr>) = ?first"
    using b by (auto simp: write_end_def)
  have j12: "?j12 = \<lparr>joint_on1 = point_of (Some n1) (on1 x),
                         joint_on2 = point_of (Some n2) (on2 x)\<rparr>"
    and j21: "?j21 = \<lparr>joint_on1 = point_of (Some n2) (on2 x),
                         joint_on2 = point_of (Some n1) (on1 x)\<rparr>"
    by (simp_all add: joint_at_def p1 p2)
  have first: "write_joint (Some n1) (t (on1 x) = TMin (on_curve (on1 x)))
                 \<lparr>joint_on1 = point_of (Some n1) (on1 x),
                   joint_on2 = point_of (Some n2) (on2 x)\<rparr> c2i = Inr ?c2i1"
    unfolding write_joint_Inr[OF r1] j12[symmetric] first_eq ..
  have keep: "map_of ?c2i1 n2 = Some ?info2"
    using r2 by (simp add: update_conv')
  have triv: "AList.update n2 ?info2 ?c2i1 = ?c2i1"
    using keep by (rule update_triv)
  have unfolded: "addJoint x p2i c2i =
      (if t (on2 x) = TMin (on_curve (on2 x)) then write_joint (Some n2) True ?j21 ?c2i1
       else if t (on2 x) = TMax (on_curve (on2 x)) then write_joint (Some n2) False ?j21 ?c2i1
       else Inr ?c2i1)"
    unfolding addJoint_unfold[OF guard] p1 p2 first by (simp add: j21)
  show ?thesis
  proof (cases "t (on2 x) = TMin (on_curve (on2 x))")
    case True
    then show ?thesis
      unfolding unfolded write_joint_Inr[OF keep] by (simp add: write_end_def[of "on2 x"])
  next
    case notmin: False
    show ?thesis
    proof (cases "t (on2 x) = TMax (on_curve (on2 x))")
      case True
      with notmin show ?thesis
        unfolding unfolded write_joint_Inr[OF keep] by (simp add: write_end_def[of "on2 x"])
    next
      case False
      with notmin have "write_end (on2 x) ?j21 ?info2 = ?info2"
        by (simp add: write_end_def[of "on2 x"])
      with notmin False show ?thesis unfolding unfolded by (simp add: triv)
    qed
  qed
qed

subsection \<open>Steps of add that leave the joints alone\<close>

lemma joints_of_update:
  assumes "map_of c2i n = Some info"
    and "joints_start info1 = joints_start info" and "joints_stop info1 = joints_stop info"
  shows "joints_of (AList.update n info1 c2i) = joints_of c2i"
  using assms(1)
proof (induction c2i)
  case Nil
  then show ?case by simp
next
  case (Cons e c2i)
  obtain m i where e: "e = (m, i)" by (cases e)
  show ?case
  proof (cases "m = n")
    case True
    with Cons.prems e have "i = info" by simp
    with True e assms(2,3) show ?thesis by (simp add: joints_of_def)
  next
    case False
    with Cons.prems e have "map_of c2i n = Some info" by simp
    from Cons.IH[OF this] False e show ?thesis by (simp add: joints_of_def)
  qed
qed

lemma touch_joints:
  assumes "touch owner x c2i = Inr c2i1"
  shows "joints_of c2i1 = joints_of c2i"
proof -
  from assms obtain n info where info: "map_of c2i n = Some info"
    and c2i1: "c2i1 = AList.update n (info\<lparr>touched := set_add x (touched info)\<rparr>) c2i"
    by (auto simp: touch_def split: option.splits)
  show ?thesis unfolding c2i1 by (rule joints_of_update[OF info]) simp_all
qed

lemma trim_loop_joints:
  assumes "trim_loop k p2i owner c1 visited xs (s, trs, c2i, q) = Inr (s1, trs1, c2i1, q1)"
  shows "joints_of c2i1 = joints_of c2i"
  using assms
proof (induction xs arbitrary: s trs c2i q)
  case Nil
  then show ?case by simp
next
  case (Cons x xs)
  show ?case
  proof (cases "trim_step k p2i owner c1 visited x (s, trs, c2i, q)")
    case (Inl e)
    with Cons.prems show ?thesis by simp
  next
    case (Inr acc)
    obtain s2 trs2 c2i2 q2 where acc: "acc = (s2, trs2, c2i2, q2)" by (cases acc)
    from Inr[unfolded acc] obtain n where "touch owner n c2i = Inr c2i2"
      by (rule trim_step_cases) simp
    then have step: "joints_of c2i2 = joints_of c2i" by (rule touch_joints)
    from Cons.prems Inr acc
    have "trim_loop k p2i owner c1 visited xs (s2, trs2, c2i2, q2) = Inr (s1, trs1, c2i1, q1)"
      by simp
    from Cons.IH[OF this] step show ?thesis by simp
  qed
qed

lemma updateCurve_joints:
  assumes "updateCurve v trims p d = Inr d1"
  shows "joints_of (curve2info d1) = joints_of (curve2info d)"
proof -
  from assms obtain info views s where info: "map_of (curve2info d) v = Some info"
    and d1: "d1 = d\<lparr>curve2info := AList.update v (info\<lparr>fragments := views\<rparr>) (curve2info d),
                    db := s, pending := pending d @ fragments info\<rparr>"
    by (rule updateCurve_cases)
  have "joints_of (AList.update v (info\<lparr>fragments := views\<rparr>) (curve2info d))
      = joints_of (curve2info d)"
    by (rule joints_of_update[OF info]) simp_all
  then show ?thesis by (simp add: d1)
qed

text \<open>While one curve of the worklist is processed, the joints of the registry change
  only through the two \<open>addJoint\<close> calls for the first and the last of its sorted
  crosses, and these are made only for a curve that has a cross and is bounded and not
  closed.\<close>

lemma process_curve_joints:
  assumes "process_curve k p p2i all view current visited q d = Inr (q1, d1)"
  shows "if all_crosses k current all \<noteq> [] \<and> IsBounded current \<and> \<not> IsClosed current
         then \<exists>c2i1 c2i2.
                addJoint (hd (sort_key (\<lambda>c. t (on1 c)) (all_crosses k current all))) p2i
                  (curve2info d) = Inr c2i1 \<and>
                addJoint (last (sort_key (\<lambda>c. t (on1 c)) (all_crosses k current all))) p2i
                  c2i1 = Inr c2i2 \<and>
                joints_of (curve2info d1) = joints_of c2i2
         else joints_of (curve2info d1) = joints_of (curve2info d)"
  using assms
proof (cases rule: process_curve_cases)
  case whole
  from updateCurve_joints[OF whole(2)] whole(1) show ?thesis by simp
next
  case split
  let ?xs = "sort_key (\<lambda>c. t (on1 c)) (all_crosses k current all)"
  from split(2) obtain crosses c2i s1 trims c2i1 where
    bc: "bounded_crosses current p2i ?xs (curve2info d) = Inr (crosses, c2i)" and
    tl: "trim_loop k p2i (map_of p2i (Id (on_curve (on1 (hd ?xs))))) (on_curve (on1 (hd ?xs)))
           visited crosses (t (on1 (hd crosses)), [], c2i, q) = Inr (s1, trims, c2i1, q1)" and
    uc: "updateCurve view trims p (d\<lparr>curve2info := c2i1\<rparr>) = Inr d1"
    by (rule split_curve_cases)
  from updateCurve_joints[OF uc] trim_loop_joints[OF tl]
  have frame: "joints_of (curve2info d1) = joints_of c2i" by simp
  show ?thesis
  proof (cases "IsBounded current \<and> \<not> IsClosed current")
    case True
    with bc obtain c2i2 where a1: "addJoint (hd ?xs) p2i (curve2info d) = Inr c2i2"
      and a2: "addJoint (last ?xs) p2i c2i2 = Inr c2i"
      by (auto simp: bounded_crosses_def split: sum.splits)
    with frame True split(1) show ?thesis by auto
  next
    case False
    with bc have "c2i = curve2info d" by (auto simp: bounded_crosses_def split: if_splits)
    with frame False show ?thesis by auto
  qed
qed

subsection \<open>Every recorded joint sits at its own end\<close>

lemma joints_at_ends_cong:
  assumes "joints_of c2i1 = joints_of c2i" and "joints_at_ends c2i"
  shows "joints_at_ends c2i1"
  using assms by (simp add: joints_at_ends_def)

lemma joints_at_ends_update:
  assumes "joints_at_ends c2i"
    and "own_end n True (joints_start info1)" and "own_end n False (joints_stop info1)"
  shows "joints_at_ends (AList.update n info1 c2i)"
  unfolding joints_at_ends_def
proof (intro ballI, clarify)
  fix m js je assume "(m, js, je) \<in> set (joints_of (AList.update n info1 c2i))"
  then obtain i where mem: "(m, i) \<in> set (AList.update n info1 c2i)"
    and js: "js = joints_start i" and je: "je = joints_stop i"
    by (auto simp: joints_of_def)
  from mem update_entries[of n info1 c2i] have "(m, i) = (n, info1) \<or> (m, i) \<in> set c2i"
    by blast
  then show "own_end m True js \<and> own_end m False je"
  proof
    assume "(m, i) = (n, info1)"
    with assms(2,3) js je show ?thesis by simp
  next
    assume "(m, i) \<in> set c2i"
    then have "(m, js, je) \<in> set (joints_of c2i)"
      unfolding js je joints_of_def by (auto intro: rev_image_eqI)
    with assms(1) show ?thesis unfolding joints_at_ends_def by blast
  qed
qed

lemma joints_at_ends_entry:
  assumes "joints_at_ends c2i" and "map_of c2i n = Some info"
  shows "own_end n True (joints_start info)" and "own_end n False (joints_stop info)"
proof -
  from assms(2) have "(n, info) \<in> set c2i" by (rule map_of_SomeD)
  then have "(n, joints_start info, joints_stop info) \<in> set (joints_of c2i)"
    unfolding joints_of_def by (auto intro: rev_image_eqI)
  with assms(1) show "own_end n True (joints_start info)" and "own_end n False (joints_stop info)"
    unfolding joints_at_ends_def by blast+
qed

lemma write_joint_at_ends:
  assumes "write_joint owner b j c2i = Inr c2i1" and "joints_at_ends c2i"
    and "poc_name (joint_on1 j) = owner"
    and "poc_t (joint_on1 j) = (if b then poc_tmin (joint_on1 j) else poc_tmax (joint_on1 j))"
  shows "joints_at_ends c2i1"
proof -
  from assms(1) obtain n info where owner: "owner = Some n" and info: "map_of c2i n = Some info"
    and c2i1: "c2i1 = AList.update n (if b then info\<lparr>joints_start := Some j\<rparr>
                                       else info\<lparr>joints_stop := Some j\<rparr>) c2i"
    by (auto simp: write_joint_def split: option.splits)
  note old = joints_at_ends_entry[OF assms(2) info]
  show ?thesis
    unfolding c2i1 using old assms(3,4) owner
    by (intro joints_at_ends_update[OF assms(2)]) (auto simp: own_end_def)
qed

lemma addJoint_at_ends:
  assumes "addJoint x p2i c2i = Inr c2i1" and "joints_at_ends c2i"
  shows "joints_at_ends c2i1"
proof (cases "t (on1 x) \<noteq> TMin (on_curve (on1 x)) \<and> t (on1 x) \<noteq> TMax (on_curve (on1 x))")
  case True
  with assms(1) have "c2i1 = c2i" by (simp add: addJoint_def Let_def)
  with assms(2) show ?thesis by simp
next
  case False
  note unf = addJoint_unfold[OF False, of p2i c2i]
  let ?j12 = "\<lparr>joint_on1 = point_of (map_of p2i (Id (on_curve (on1 x)))) (on1 x),
               joint_on2 = point_of (map_of p2i (Id (on_curve (on2 x)))) (on2 x)\<rparr>"
  let ?j21 = "\<lparr>joint_on1 = point_of (map_of p2i (Id (on_curve (on2 x)))) (on2 x),
               joint_on2 = point_of (map_of p2i (Id (on_curve (on1 x)))) (on1 x)\<rparr>"
  let ?w1 = "write_joint (map_of p2i (Id (on_curve (on1 x))))
             (t (on1 x) = TMin (on_curve (on1 x))) ?j12 c2i"
  show ?thesis
  proof (cases ?w1)
    case (Inl e)
    with assms(1) unf show ?thesis by simp
  next
    case (Inr c2i2)
    have e1: "joints_at_ends c2i2"
      using False by (intro write_joint_at_ends[OF Inr assms(2)]) (auto simp: point_of_def)
    from assms(1) unf Inr have rest:
      "(if t (on2 x) = TMin (on_curve (on2 x))
          then write_joint (map_of p2i (Id (on_curve (on2 x)))) True ?j21 c2i2
          else if t (on2 x) = TMax (on_curve (on2 x))
          then write_joint (map_of p2i (Id (on_curve (on2 x)))) False ?j21 c2i2
          else Inr c2i2) = Inr c2i1"
      by simp
    show ?thesis
    proof (cases "t (on2 x) = TMin (on_curve (on2 x))")
      case True
      with rest have w2: "write_joint (map_of p2i (Id (on_curve (on2 x)))) True ?j21 c2i2 = Inr c2i1"
        by simp
      show ?thesis
        using True by (intro write_joint_at_ends[OF w2 e1]) (simp_all add: point_of_def)
    next
      case notmin: False
      show ?thesis
      proof (cases "t (on2 x) = TMax (on_curve (on2 x))")
        case True
        with rest notmin
        have w2: "write_joint (map_of p2i (Id (on_curve (on2 x)))) False ?j21 c2i2 = Inr c2i1"
          by simp
        show ?thesis
          using True by (intro write_joint_at_ends[OF w2 e1]) (simp_all add: point_of_def)
      next
        case False
        with rest notmin have "c2i1 = c2i2" by simp
        with e1 show ?thesis by simp
      qed
    qed
  qed
qed

lemma process_curve_at_ends:
  assumes "process_curve k p p2i all view current visited q d = Inr (q1, d1)"
    and "joints_at_ends (curve2info d)"
  shows "joints_at_ends (curve2info d1)"
proof (cases "all_crosses k current all \<noteq> [] \<and> IsBounded current \<and> \<not> IsClosed current")
  case True
  with process_curve_joints[OF assms(1)] obtain c2i1 c2i2 where
    a1: "addJoint (hd (sort_key (\<lambda>c. t (on1 c)) (all_crosses k current all))) p2i
           (curve2info d) = Inr c2i1" and
    a2: "addJoint (last (sort_key (\<lambda>c. t (on1 c)) (all_crosses k current all))) p2i
           c2i1 = Inr c2i2" and
    eq: "joints_of (curve2info d1) = joints_of c2i2"
    by auto
  from addJoint_at_ends[OF a2 addJoint_at_ends[OF a1 assms(2)]] eq show ?thesis
    by (rule joints_at_ends_cong[rotated])
next
  case False
  with process_curve_joints[OF assms(1)]
  have "joints_of (curve2info d1) = joints_of (curve2info d)" by auto
  then show ?thesis using assms(2) by (rule joints_at_ends_cong)
qed

lemma add_loop_at_ends:
  assumes "add_loop k p p2i all q visited d = Inr d1" and "joints_at_ends (curve2info d)"
  shows "joints_at_ends (curve2info d1)"
  using assms
proof (induction k p p2i all q visited d rule: add_loop.induct)
  case (1 k p p2i all q visited d)
  show ?case
  proof (cases q)
    case Nil
    with "1.prems" show ?thesis by (simp add: add_loop_Nil)
  next
    case (Cons e rest)
    obtain i current where e: "e = (i, current)" by (cases e)
    from "1.prems"(1)[unfolded Cons e] obtain view q1 d2 where
      view: "map_of p2i i = Some view" and
      pc: "process_curve k p p2i all view current (set_add i visited)
             (AList.delete i ((i, current) # rest)) d = Inr (q1, d2)" and
      rec: "add_loop k p p2i all q1 (set_add i visited) d2 = Inr d1"
      by (rule add_loop_cases)
    have pc': "process_curve k p p2i all view current (set_add i visited)
             (AList.delete i q) d = Inr (q1, d2)"
      using pc unfolding Cons e .
    from process_curve_at_ends[OF pc "1.prems"(2)]
    have "joints_at_ends (curve2info d2)" .
    from "1.IH"[OF Cons e[symmetric] view pc' refl rec this] show ?thesis .
  qed
qed

lemma add_at_ends:
  assumes "add k N d = Inr d1" and "joints_at_ends (curve2info d)"
  shows "joints_at_ends (curve2info d1)"
proof (cases "curve3d2curve2d k N")
  case None
  with assms show ?thesis by (simp add: add_not_planar)
next
  case (Some r)
  obtain cN pl where r: "r = (cN, pl)" by (cases r)
  from Some[unfolded r] assms(1) obtain pN ps p2i0 all0 where
    loop: "add_loop k pN (AList.update (Id cN) N p2i0) (all0 @ [cN]) [(Id cN, cN)] []
       (d\<lparr>placements := ps, counter := Suc (counter d),
          id2planarCurve := AList.update (counter d) cN (id2planarCurve d),
          curve2info := AList.update N (new_CurveInfo (counter d) pN) (curve2info d)\<rparr>) = Inr d1"
    by (rule add_unfold)
  have "joints_at_ends (AList.update N (new_CurveInfo (counter d) pN) (curve2info d))"
    using assms(2) by (rule joints_at_ends_update) (simp_all add: new_CurveInfo_def own_end_def)
  with add_loop_at_ends[OF loop] show ?thesis by simp
qed

text \<open>
  Claim C5 says that a joint is recorded whenever the parameter of a processed
  intersection is, on either curve, at that curve's domain boundary.  A segment is
  added, and then a circle that cuts it twice, once at the seam of the circle, where the
  parameter on the circle is its \<open>tMin\<close>.  Both intersections are processed by \<open>add\<close>,
  from the circle and from the segment, and when the adds have returned neither curve
  holds a joint: for the circle, which is closed, \<open>addJoint\<close> is not called, and for the
  segment the parameter on the segment is inside its domain.
\<close>

theorem seam_joint_counterexample:
  "add_all seam_kernel [1, 3] empty_db = Inr seam_db \<and>
   all_crosses seam_kernel (circle 30) [segment 10, circle 30]
     = [cross_at (circle 30) 0 (segment 10) (1 / 4),
        cross_at (circle 30) 3 (segment 10) (3 / 4)] \<and>
   all_crosses seam_kernel (segment 10) [segment 10, circle 30]
     = [cross_at (segment 10) (1 / 4) (circle 30) 0,
        cross_at (segment 10) (3 / 4) (circle 30) 3] \<and>
   t (on1 (cross_at (circle 30) 0 (segment 10) (1 / 4))) = TMin (circle 30) \<and>
   t (on2 (cross_at (segment 10) (1 / 4) (circle 30) 0)) = TMin (circle 30) \<and>
   joints_of (curve2info seam_db) = [(1, None, None), (3, None, None)]"
proof -
  have run: "add_all seam_kernel [1, 3] empty_db = Inr seam_db" by code_simp
  have c1: "all_crosses seam_kernel (circle 30) [segment 10, circle 30]
     = [cross_at (circle 30) 0 (segment 10) (1 / 4),
        cross_at (circle 30) 3 (segment 10) (3 / 4)]"
    by (simp add: all_crosses_def seam_kernel_def table_kernel_def contour_crosses_def
        cross_at_def segment_def circle_def)
  have c2: "all_crosses seam_kernel (segment 10) [segment 10, circle 30]
     = [cross_at (segment 10) (1 / 4) (circle 30) 0,
        cross_at (segment 10) (3 / 4) (circle 30) 3]"
    by (simp add: all_crosses_def seam_kernel_def table_kernel_def contour_crosses_def
        cross_at_def segment_def circle_def)
  have js: "joints_of (curve2info seam_db) = [(1, None, None), (3, None, None)]"
    by (simp add: joints_of_def seam_db_def)
  show ?thesis
    unfolding c1 c2 js using run by (simp add: cross_at_def circle_def)
qed

text \<open>
  Claim C5 as amended.  \<open>addJoint\<close> looks at the parameter on the first curve of the
  cross only.  If that parameter is neither \<open>tMin\<close> nor \<open>tMax\<close> of the first curve,
  nothing is recorded on either curve, whatever the parameter on the second curve is.
  If it is \<open>tMin\<close> (or else \<open>tMax\<close>), the joint is written to \<open>joints.start\<close> (or else
  \<open>joints.stop\<close>) of the first curve's entry, replacing what was there; then the entry
  of the second curve, which may be the same entry, receives the mirrored joint at its
  start or stop if the parameter on the second curve is its \<open>tMin\<close> or \<open>tMax\<close>, and is
  left as it is for an interior parameter; no other entry changes.  While \<open>add\<close>
  processes one curve of its worklist, the joints of the registry change only by
  \<open>addJoint\<close> on the first and then on the last of the sorted crosses of that curve, and
  only if the curve has a cross and is bounded and not closed.  Every \<open>add\<close> keeps each
  recorded joint at its own end: a joint at the start (stop) of an entry belongs to
  that entry, and its own parameter is the \<open>tMin\<close> (\<open>tMax\<close>) it was recorded with.
\<close>

theorem addJoint_records:
  "(t (on1 x) \<noteq> TMin (on_curve (on1 x)) \<and> t (on1 x) \<noteq> TMax (on_curve (on1 x))
      \<longrightarrow> addJoint x p2i c2i = Inr c2i) \<and>
   ((t (on1 x) = TMin (on_curve (on1 x)) \<or> t (on1 x) = TMax (on_curve (on1 x))) \<and>
    map_of p2i (Id (on_curve (on1 x))) = Some n1 \<and>
    map_of p2i (Id (on_curve (on2 x))) = Some n2 \<and>
    map_of c2i n1 = Some info1 \<and> map_of c2i n2 = Some info2
      \<longrightarrow> addJoint x p2i c2i =
            Inr (AList.update n2
                   (write_end (on2 x) (joint_at p2i (on2 x) (on1 x))
                      (if n2 = n1 then write_end (on1 x) (joint_at p2i (on1 x) (on2 x)) info1
                       else info2))
                   (AList.update n1
                      (write_end (on1 x) (joint_at p2i (on1 x) (on2 x)) info1) c2i))) \<and>
   (process_curve k p p2i all view current visited q d = Inr (q1, d1)
      \<longrightarrow> (if all_crosses k current all \<noteq> [] \<and> IsBounded current \<and> \<not> IsClosed current
           then \<exists>c2i1 c2i2.
                  addJoint (hd (sort_key (\<lambda>c. t (on1 c)) (all_crosses k current all))) p2i
                    (curve2info d) = Inr c2i1 \<and>
                  addJoint (last (sort_key (\<lambda>c. t (on1 c)) (all_crosses k current all))) p2i
                    c2i1 = Inr c2i2 \<and>
                  joints_of (curve2info d1) = joints_of c2i2
           else joints_of (curve2info d1) = joints_of (curve2info d))) \<and>
   (add k N d0 = Inr d2 \<and> joints_at_ends (curve2info d0)
      \<longrightarrow> joints_at_ends (curve2info d2))"
proof (intro conjI impI)
  assume "t (on1 x) \<noteq> TMin (on_curve (on1 x)) \<and> t (on1 x) \<noteq> TMax (on_curve (on1 x))"
  then show "addJoint x p2i c2i = Inr c2i" by (simp add: addJoint_interior)
next
  assume "(t (on1 x) = TMin (on_curve (on1 x)) \<or> t (on1 x) = TMax (on_curve (on1 x))) \<and>
    map_of p2i (Id (on_curve (on1 x))) = Some n1 \<and>
    map_of p2i (Id (on_curve (on2 x))) = Some n2 \<and>
    map_of c2i n1 = Some info1 \<and> map_of c2i n2 = Some info2"
  then have b: "t (on1 x) = TMin (on_curve (on1 x)) \<or> t (on1 x) = TMax (on_curve (on1 x))"
    and p1: "map_of p2i (Id (on_curve (on1 x))) = Some n1"
    and p2: "map_of p2i (Id (on_curve (on2 x))) = Some n2"
    and r1: "map_of c2i n1 = Some info1" and r2: "map_of c2i n2 = Some info2"
    by simp_all
  from b p1 p2 r1 r2 show "addJoint x p2i c2i =
            Inr (AList.update n2
                   (write_end (on2 x) (joint_at p2i (on2 x) (on1 x))
                      (if n2 = n1 then write_end (on1 x) (joint_at p2i (on1 x) (on2 x)) info1
                       else info2))
                   (AList.update n1
                      (write_end (on1 x) (joint_at p2i (on1 x) (on2 x)) info1) c2i))"
    by (rule addJoint_writes)
next
  assume "process_curve k p p2i all view current visited q d = Inr (q1, d1)"
  then show "if all_crosses k current all \<noteq> [] \<and> IsBounded current \<and> \<not> IsClosed current
           then \<exists>c2i1 c2i2.
                  addJoint (hd (sort_key (\<lambda>c. t (on1 c)) (all_crosses k current all))) p2i
                    (curve2info d) = Inr c2i1 \<and>
                  addJoint (last (sort_key (\<lambda>c. t (on1 c)) (all_crosses k current all))) p2i
                    c2i1 = Inr c2i2 \<and>
                  joints_of (curve2info d1) = joints_of c2i2
           else joints_of (curve2info d1) = joints_of (curve2info d)"
    by (rule process_curve_joints)
next
  assume "add k N d0 = Inr d2 \<and> joints_at_ends (curve2info d0)"
  then have "add k N d0 = Inr d2" and "joints_at_ends (curve2info d0)" by simp_all
  then show "joints_at_ends (curve2info d2)" by (rule add_at_ends)
qed

text \<open>The segment \<open>20\<close> that starts on the middle of segment \<open>10\<close> is added to the
  registry that holds segment \<open>10\<close>.  The one cross of segment \<open>20\<close> is at its \<open>tMin\<close>
  and inside the domain of segment \<open>10\<close>: the joint is recorded at the start of curve
  \<open>2\<close>, and curve \<open>1\<close> gets none.\<close>

lemma tee_process:
  "\<not> isl (process_curve tee_kernel 0 fresh_p2i [segment 10, segment 20] 2 (segment 20)
            [20] [] pre_db)"
  "joints_of (curve2info (snd (projr
      (process_curve tee_kernel 0 fresh_p2i [segment 10, segment 20] 2 (segment 20)
         [20] [] pre_db))))
     = [(1, None, None), (2, Some tee_joint, None)]"
  by code_simp+

lemma tee_add:
  "\<not> isl (add tee_kernel 2 lone_db)"
  "joints_of (curve2info (projr (add tee_kernel 2 lone_db)))
     = [(1, None, None), (2, Some tee_joint, None)]"
  by code_simp+

theorem addJoint_records_witness:
  "t (on1 tee_cross) = TMin (on_curve (on1 tee_cross)) \<and>
   map_of fresh_p2i (Id (on_curve (on1 tee_cross))) = Some 2 \<and>
   map_of fresh_p2i (Id (on_curve (on2 tee_cross))) = Some 1 \<and>
   map_of fresh_c2i 2 = Some (new_CurveInfo 1 0) \<and>
   map_of fresh_c2i 1 = Some (new_CurveInfo 0 0) \<and>
   addJoint tee_cross fresh_p2i fresh_c2i
     = Inr [(1, new_CurveInfo 0 0), (2, (new_CurveInfo 1 0)\<lparr>joints_start := Some tee_joint\<rparr>)] \<and>
   all_crosses tee_kernel (segment 20) [segment 10, segment 20] = [tee_cross] \<and>
   IsBounded (segment 20) \<and> \<not> IsClosed (segment 20) \<and>
   (\<exists>q1 d1. process_curve tee_kernel 0 fresh_p2i [segment 10, segment 20] 2 (segment 20)
              [20] [] pre_db = Inr (q1, d1) \<and>
            joints_of (curve2info d1) = [(1, None, None), (2, Some tee_joint, None)]) \<and>
   joints_at_ends (curve2info lone_db) \<and>
   (\<exists>d2. add tee_kernel 2 lone_db = Inr d2 \<and>
         joints_of (curve2info d2) = [(1, None, None), (2, Some tee_joint, None)] \<and>
         joints_at_ends (curve2info d2))"
proof -
  let ?run = "process_curve tee_kernel 0 fresh_p2i [segment 10, segment 20] 2 (segment 20)
                [20] [] pre_db"
  obtain q1 d1 where run: "?run = Inr (q1, d1)"
    using tee_process(1) by (cases ?run) auto
  with tee_process(2) have js1: "joints_of (curve2info d1) = [(1, None, None), (2, Some tee_joint, None)]"
    by simp
  obtain d2 where add: "add tee_kernel 2 lone_db = Inr d2"
    using tee_add(1) by (cases "add tee_kernel 2 lone_db") auto
  with tee_add(2) have js2: "joints_of (curve2info d2) = [(1, None, None), (2, Some tee_joint, None)]"
    by simp
  have ends0: "joints_at_ends (curve2info lone_db)"
    by (simp add: joints_at_ends_def joints_of_def lone_db_def own_end_def)
  note inst = addJoint_records[of tee_cross fresh_p2i fresh_c2i 2 1 "new_CurveInfo 1 0"
      "new_CurveInfo 0 0" tee_kernel 0 "[segment 10, segment 20]" 2 "segment 20" "[20]" "[]"
      pre_db q1 d1 2 lone_db d2]
  have b: "t (on1 tee_cross) = TMin (on_curve (on1 tee_cross))"
    by (simp add: tee_cross_def cross_at_def segment_def)
  have p1: "map_of fresh_p2i (Id (on_curve (on1 tee_cross))) = Some 2"
    and p2: "map_of fresh_p2i (Id (on_curve (on2 tee_cross))) = Some 1"
    by (simp_all add: fresh_p2i_def tee_cross_def cross_at_def segment_def)
  have r1: "map_of fresh_c2i 2 = Some (new_CurveInfo 1 0)"
    and r2: "map_of fresh_c2i 1 = Some (new_CurveInfo 0 0)"
    by (simp_all add: fresh_c2i_def)
  from inst b p1 p2 r1 r2 have "addJoint tee_cross fresh_p2i fresh_c2i =
      Inr (AList.update 1
             (write_end (on2 tee_cross) (joint_at fresh_p2i (on2 tee_cross) (on1 tee_cross))
                (if (1 :: name) = 2
                 then write_end (on1 tee_cross) (joint_at fresh_p2i (on1 tee_cross) (on2 tee_cross))
                        (new_CurveInfo 1 0)
                 else new_CurveInfo 0 0))
             (AList.update 2
                (write_end (on1 tee_cross) (joint_at fresh_p2i (on1 tee_cross) (on2 tee_cross))
                   (new_CurveInfo 1 0)) fresh_c2i))"
    by blast
  then have written: "addJoint tee_cross fresh_p2i fresh_c2i
     = Inr [(1, new_CurveInfo 0 0), (2, (new_CurveInfo 1 0)\<lparr>joints_start := Some tee_joint\<rparr>)]"
    by (simp add: write_end_def joint_at_def point_of_def fresh_c2i_def fresh_p2i_def
        tee_cross_def cross_at_def segment_def tee_joint_def)
  have crosses: "all_crosses tee_kernel (segment 20) [segment 10, segment 20] = [tee_cross]"
    by (simp add: all_crosses_def tee_kernel_def table_kernel_def contour_crosses_def
        tee_cross_def cross_at_def segment_def)
  have shape: "IsBounded (segment 20)" "\<not> IsClosed (segment 20)"
    by (simp_all add: segment_def)
  from inst add ends0 have ends2: "joints_at_ends (curve2info d2)" by blast
  have part3: "\<exists>q1 d1. ?run = Inr (q1, d1) \<and>
            joints_of (curve2info d1) = [(1, None, None), (2, Some tee_joint, None)]"
    using run js1 by blast
  have part4: "\<exists>d2. add tee_kernel 2 lone_db = Inr d2 \<and>
         joints_of (curve2info d2) = [(1, None, None), (2, Some tee_joint, None)] \<and>
         joints_at_ends (curve2info d2)"
    using add js2 ends2 by blast
  show ?thesis
    by (intro conjI) (rule b p1 p2 r1 r2 written crosses shape part3 ends0 part4)+
qed

section \<open>Symmetry of the touched sets\<close>

subsection \<open>Steps of add only let the registry grow\<close>

lemma grows_refl: "grows c2i c2i"
  by (simp add: grows_def)

lemma grows_trans:
  assumes "grows a b" and "grows b c"
  shows "grows a c"
  unfolding grows_def
proof (intro conjI allI impI)
  show "map fst c = map fst a" using assms by (simp add: grows_def)
next
  fix n info assume "map_of a n = Some info"
  with assms(1) obtain info1 where 1: "map_of b n = Some info1"
    "planarCurve info1 = planarCurve info" "placement info1 = placement info"
    "set (touched info) \<subseteq> set (touched info1)"
    unfolding grows_def by blast
  with assms(2) obtain info2 where 2: "map_of c n = Some info2"
    "planarCurve info2 = planarCurve info1" "placement info2 = placement info1"
    "set (touched info1) \<subseteq> set (touched info2)"
    unfolding grows_def by blast
  from 1 2 show "\<exists>info1. map_of c n = Some info1 \<and>
           planarCurve info1 = planarCurve info \<and> placement info1 = placement info \<and>
           set (touched info) \<subseteq> set (touched info1)"
    by auto
qed

lemma grows_update:
  assumes "map_of c2i n = Some info"
    and "planarCurve info1 = planarCurve info" and "placement info1 = placement info"
    and "set (touched info) \<subseteq> set (touched info1)"
  shows "grows c2i (AList.update n info1 c2i)"
proof -
  from assms(1) have "n \<in> fst ` set c2i" by (metis map_of_eq_None_iff option.distinct(1))
  then have keys: "map fst (AList.update n info1 c2i) = map fst c2i"
    by (simp add: update_keys)
  show ?thesis
    unfolding grows_def using keys assms by (auto simp: update_conv')
qed

lemma write_joint_grows:
  assumes "write_joint owner b j c2i = Inr c2i1"
  shows "grows c2i c2i1"
proof -
  from assms obtain n info where "owner = Some n" and info: "map_of c2i n = Some info"
    and c2i1: "c2i1 = AList.update n (if b then info\<lparr>joints_start := Some j\<rparr>
                                       else info\<lparr>joints_stop := Some j\<rparr>) c2i"
    by (auto simp: write_joint_def split: option.splits)
  show ?thesis unfolding c2i1 by (rule grows_update[OF info]) simp_all
qed

lemma touch_grows:
  assumes "touch owner x c2i = Inr c2i1"
  shows "grows c2i c2i1"
    and "\<exists>n info1. owner = Some n \<and> map_of c2i1 n = Some info1 \<and> x \<in> set (touched info1)"
proof -
  from assms obtain n info where owner: "owner = Some n" and info: "map_of c2i n = Some info"
    and c2i1: "c2i1 = AList.update n (info\<lparr>touched := set_add x (touched info)\<rparr>) c2i"
    by (auto simp: touch_def split: option.splits)
  show "grows c2i c2i1"
    unfolding c2i1 by (rule grows_update[OF info]) (auto simp: set_add_def)
  show "\<exists>n info1. owner = Some n \<and> map_of c2i1 n = Some info1 \<and> x \<in> set (touched info1)"
    using owner by (simp add: c2i1 update_conv' set_add_def)
qed

lemma addJoint_grows:
  assumes "addJoint x p2i c2i = Inr c2i1"
  shows "grows c2i c2i1"
proof (cases "t (on1 x) \<noteq> TMin (on_curve (on1 x)) \<and> t (on1 x) \<noteq> TMax (on_curve (on1 x))")
  case True
  with assms have "c2i1 = c2i" by (simp add: addJoint_def Let_def)
  then show ?thesis by (simp add: grows_refl)
next
  case False
  note unf = addJoint_unfold[OF False, of p2i c2i]
  let ?w1 = "write_joint (map_of p2i (Id (on_curve (on1 x))))
             (t (on1 x) = TMin (on_curve (on1 x)))
             \<lparr>joint_on1 = point_of (map_of p2i (Id (on_curve (on1 x)))) (on1 x),
               joint_on2 = point_of (map_of p2i (Id (on_curve (on2 x)))) (on2 x)\<rparr> c2i"
  show ?thesis
  proof (cases ?w1)
    case (Inl e)
    with assms unf show ?thesis by simp
  next
    case (Inr c2i2)
    then have g1: "grows c2i c2i2" by (rule write_joint_grows)
    from assms unf Inr have
      "(if t (on2 x) = TMin (on_curve (on2 x))
          then write_joint (map_of p2i (Id (on_curve (on2 x)))) True
                 \<lparr>joint_on1 = point_of (map_of p2i (Id (on_curve (on2 x)))) (on2 x),
                   joint_on2 = point_of (map_of p2i (Id (on_curve (on1 x)))) (on1 x)\<rparr> c2i2
          else if t (on2 x) = TMax (on_curve (on2 x))
          then write_joint (map_of p2i (Id (on_curve (on2 x)))) False
                 \<lparr>joint_on1 = point_of (map_of p2i (Id (on_curve (on2 x)))) (on2 x),
                   joint_on2 = point_of (map_of p2i (Id (on_curve (on1 x)))) (on1 x)\<rparr> c2i2
          else Inr c2i2) = Inr c2i1"
      by simp
    then have "grows c2i2 c2i1"
      by (auto split: if_splits intro: write_joint_grows simp: grows_refl)
    with g1 show ?thesis by (rule grows_trans)
  qed
qed

lemma bounded_crosses_grows:
  assumes "bounded_crosses current p2i xs c2i = Inr (crosses, c2i1)"
  shows "grows c2i c2i1"
    and "set crosses \<subseteq> set xs \<union> {self_cross (TMin current) current, self_cross (TMax current) current}
           \<union> (if xs = [] then {hd xs} else {})"
    and "xs \<noteq> [] \<longrightarrow> set xs \<subseteq> set crosses"
proof -
  show "grows c2i c2i1"
  proof (cases "IsBounded current \<and> \<not> IsClosed current")
    case True
    with assms obtain c2i2 where a1: "addJoint (hd xs) p2i c2i = Inr c2i2"
      and a2: "addJoint (last xs) p2i c2i2 = Inr c2i1"
      by (auto simp: bounded_crosses_def split: sum.splits)
    from addJoint_grows[OF a1] addJoint_grows[OF a2] show ?thesis by (rule grows_trans)
  next
    case False
    with assms have "c2i1 = c2i" by (auto simp: bounded_crosses_def split: if_splits)
    then show ?thesis by (simp add: grows_refl)
  qed
  show "set crosses \<subseteq> set xs \<union> {self_cross (TMin current) current, self_cross (TMax current) current}
           \<union> (if xs = [] then {hd xs} else {})"
    using assms by (auto simp: bounded_crosses_def split: sum.splits if_splits)
  show "xs \<noteq> [] \<longrightarrow> set xs \<subseteq> set crosses"
    using assms by (auto simp: bounded_crosses_def split: sum.splits if_splits)
qed

lemma queue_ok_update:
  assumes "queue_ok p2i all q" and "c \<in> set all" and "Id c \<in> fst ` set p2i"
  shows "queue_ok p2i all (AList.update (Id c) c q)"
  unfolding queue_ok_def
proof (intro ballI, clarify)
  fix i c' assume "(i, c') \<in> set (AList.update (Id c) c q)"
  with update_entries[of "Id c" c q] have "(i, c') = (Id c, c) \<or> (i, c') \<in> set q" by blast
  then show "i = Id c' \<and> c' \<in> set all \<and> i \<in> fst ` set p2i"
    using assms unfolding queue_ok_def by auto
qed

lemma queue_ok_delete:
  assumes "queue_ok p2i all q"
  shows "queue_ok p2i all (AList.delete i q)"
  using assms unfolding queue_ok_def by (auto simp: AList.delete_eq)

subsection \<open>What the walk over the crosses leaves behind\<close>

lemma trim_loop_effect:
  assumes "trim_loop k p2i owner c1 visited xs (s, trs, c2i, q) = Inr (s1, trs1, c2i1, q1)"
    and "\<forall>x \<in> set xs. on_curve (on2 x) \<in> set all"
    and "queue_ok p2i all q"
  shows "grows c2i c2i1 \<and> queue_ok p2i all q1 \<and> fst ` set q \<subseteq> fst ` set q1 \<and>
    (\<forall>x \<in> set xs. (Id (on_curve (on2 x)) \<notin> set visited
                        \<longrightarrow> Id (on_curve (on2 x)) \<in> fst ` set q1) \<and>
       (\<exists>n v info. map_of p2i (Id (on_curve (on2 x))) = Some n \<and> owner = Some v \<and>
                    map_of c2i1 v = Some info \<and> n \<in> set (touched info)))"
  using assms
proof (induction xs arbitrary: s trs c2i q)
  case Nil
  then show ?case by (simp add: grows_refl)
next
  case (Cons x xs)
  let ?other = "on_curve (on2 x)"
  show ?case
  proof (cases "trim_step k p2i owner c1 visited x (s, trs, c2i, q)")
    case (Inl e)
    with Cons.prems(1) show ?thesis by simp
  next
    case (Inr acc)
    from Inr obtain n c2i2 where
      p: "map_of p2i (Id ?other) = Some n" and
      tch: "touch owner n c2i = Inr c2i2" and
      acc: "acc = (t (on1 x),
          (if cuttable k s (t (on1 x))
           then trs @ [\<lparr>trimmed = Trimmed c1 s (t (on1 x)), start = s, stop = t (on1 x)\<rparr>]
           else trs),
          c2i2,
          (if Id ?other \<notin> set visited then AList.update (Id ?other) ?other q else q))"
      by (rule trim_step_cases)
    let ?q2 = "if Id ?other \<notin> set visited then AList.update (Id ?other) ?other q else q"
    have inp: "Id ?other \<in> fst ` set p2i"
      using p by (metis map_of_eq_None_iff option.distinct(1))
    have oa: "?other \<in> set all" using Cons.prems(2) by simp
    have q2: "queue_ok p2i all ?q2"
      using Cons.prems(3) queue_ok_update[OF Cons.prems(3) oa inp] by simp
    have keys2: "fst ` set q \<subseteq> fst ` set ?q2"
      using update_keeps_keys[of q "Id ?other" ?other] by simp
    have queued: "Id ?other \<notin> set visited \<longrightarrow> Id ?other \<in> fst ` set ?q2"
      by (simp add: AList.dom_update)
    from Cons.prems(1) Inr
    have rest: "trim_loop k p2i owner c1 visited xs acc = Inr (s1, trs1, c2i1, q1)" by simp
    from Cons.prems(2) have on2: "\<forall>x \<in> set xs. on_curve (on2 x) \<in> set all" by simp
    note ih = Cons.IH[OF rest[unfolded acc] on2 q2]
    from ih have g2: "grows c2i2 c2i1" and q1: "queue_ok p2i all q1"
      and keys1: "fst ` set ?q2 \<subseteq> fst ` set q1"
      and tail: "\<forall>x \<in> set xs. (Id (on_curve (on2 x)) \<notin> set visited
                        \<longrightarrow> Id (on_curve (on2 x)) \<in> fst ` set q1) \<and>
       (\<exists>n v info. map_of p2i (Id (on_curve (on2 x))) = Some n \<and> owner = Some v \<and>
                    map_of c2i1 v = Some info \<and> n \<in> set (touched info))"
      by simp_all
    from touch_grows[OF tch] obtain v info2 where
      g1: "grows c2i c2i2" and owner: "owner = Some v"
      and info2: "map_of c2i2 v = Some info2" and n2: "n \<in> set (touched info2)"
      by blast
    from g2 info2 obtain info1 where
      info1: "map_of c2i1 v = Some info1" and sub: "set (touched info2) \<subseteq> set (touched info1)"
      unfolding grows_def by blast
    have head: "(Id ?other \<notin> set visited \<longrightarrow> Id ?other \<in> fst ` set q1) \<and>
       (\<exists>n v info. map_of p2i (Id ?other) = Some n \<and> owner = Some v \<and>
                    map_of c2i1 v = Some info \<and> n \<in> set (touched info))"
      using queued keys1 p owner info1 sub n2 by blast
    have "grows c2i c2i1" using g1 g2 by (rule grows_trans)
    moreover have "fst ` set q \<subseteq> fst ` set q1" using keys2 keys1 by (rule subset_trans)
    ultimately show ?thesis using q1 head tail by simp
  qed
qed

lemma updateCurve_frame:
  assumes "updateCurve v trims p d = Inr d1"
  shows "grows (curve2info d) (curve2info d1)"
    and "id2planarCurve d1 = id2planarCurve d" and "counter d1 = counter d"
proof -
  from assms obtain info views s where info: "map_of (curve2info d) v = Some info"
    and d1: "d1 = d\<lparr>curve2info := AList.update v (info\<lparr>fragments := views\<rparr>) (curve2info d),
                    db := s, pending := pending d @ fragments info\<rparr>"
    by (rule updateCurve_cases)
  show "grows (curve2info d) (curve2info d1)"
    unfolding d1 using grows_update[OF info, of "info\<lparr>fragments := views\<rparr>"] by simp
  show "id2planarCurve d1 = id2planarCurve d" and "counter d1 = counter d"
    by (simp_all add: d1)
qed

subsection \<open>One curve of the worklist\<close>

lemma kernel_ok_sym: "kernel_ok k X \<Longrightarrow> X a b \<Longrightarrow> X b a"
  unfolding kernel_ok_def by (elim conjE) (erule allE [of _ a], erule allE [of _ b], erule (1) impE)

lemma kernel_ok_same:
  "kernel_ok k X \<Longrightarrow> isSamePlacement k p q \<Longrightarrow> isSamePlacement k q p"
  unfolding kernel_ok_def by simp

lemma kernel_ok_inj:
  assumes "kernel_ok k X" and "curve3d2curve2d k n = Some (c, p)"
    and "curve3d2curve2d k m = Some (c', p')" and "Id c = Id c'"
  shows "n = m"
proof -
  from assms(1) have "\<forall>n m c c' p p'. curve3d2curve2d k n = Some (c, p) \<and>
      curve3d2curve2d k m = Some (c', p') \<and> Id c = Id c' \<longrightarrow> n = m"
    unfolding kernel_ok_def by (elim conjE)
  with assms(2-4) show ?thesis by fast
qed

lemma kernel_ok_cross:
  assumes "kernel_ok k X" and "known k c" and "x \<in> set (IntersectWithAll k c all)"
  shows "on_curve (on1 x) = c \<and> on_curve (on2 x) \<in> set all"
proof -
  from assms(1) have "\<forall>c all x. known k c \<and> x \<in> set (IntersectWithAll k c all)
         \<longrightarrow> on_curve (on1 x) = c \<and> on_curve (on2 x) \<in> set all"
    unfolding kernel_ok_def by (elim conjE)
  with assms(2,3) show ?thesis by fast
qed

lemma kernel_ok_report:
  assumes "kernel_ok k X" and "known k c" and "b \<in> set all" and "X c b"
  shows "\<exists>x \<in> set (IntersectWithAll k c all). on_curve (on2 x) = b"
proof -
  from assms(1) have "\<forall>c all b. known k c \<and> b \<in> set all \<and> X c b
         \<longrightarrow> (\<exists>x \<in> set (IntersectWithAll k c all). on_curve (on2 x) = b)"
    unfolding kernel_ok_def by (elim conjE)
  with assms(2-4) show ?thesis by fast
qed

lemma all_crosses_shape:
  assumes "kernel_ok k X" and "known k current" and "current \<in> set all"
  shows "\<forall>x \<in> set (all_crosses k current all).
           on_curve (on1 x) = current \<and> on_curve (on2 x) \<in> set all"
proof
  fix x assume "x \<in> set (all_crosses k current all)"
  then consider "x \<in> set (IntersectWithAll k current all)" | "x \<in> set (contour_crosses current)"
    by (auto simp: all_crosses_def)
  then show "on_curve (on1 x) = current \<and> on_curve (on2 x) \<in> set all"
  proof cases
    case 1
    with assms(1,2) show ?thesis by (rule kernel_ok_cross)
  next
    case 2
    then have "on_curve (on1 x) = current" and "on_curve (on2 x) = current"
      by (auto simp: contour_crosses_def self_cross_def split: if_splits)
    with assms(3) show ?thesis by simp
  qed
qed

lemma process_curve_effect:
  assumes K: "kernel_ok k X" and kn: "known k current" and cin: "current \<in> set all"
    and view: "map_of p2i (Id current) = Some view" and Q: "queue_ok p2i all q"
    and run: "process_curve k p p2i all view current visited q d = Inr (q1, d1)"
  shows "grows (curve2info d) (curve2info d1) \<and>
    id2planarCurve d1 = id2planarCurve d \<and> counter d1 = counter d \<and>
    queue_ok p2i all q1 \<and> fst ` set q \<subseteq> fst ` set q1 \<and>
    (\<forall>b \<in> set all. X current b \<longrightarrow>
       (Id b \<notin> set visited \<longrightarrow> Id b \<in> fst ` set q1) \<and>
       (\<exists>n info. map_of p2i (Id b) = Some n \<and> map_of (curve2info d1) view = Some info \<and>
                  n \<in> set (touched info)))"
  using run
proof (cases rule: process_curve_cases)
  case whole
  have "\<not> X current b" if "b \<in> set all" for b
  proof
    assume "X current b"
    from kernel_ok_report[OF K kn that this]
    obtain x where "x \<in> set (IntersectWithAll k current all)" by blast
    with whole(1) show False by (simp add: all_crosses_def)
  qed
  then have none: "\<forall>b \<in> set all. X current b \<longrightarrow>
       (Id b \<notin> set visited \<longrightarrow> Id b \<in> fst ` set q1) \<and>
       (\<exists>n info. map_of p2i (Id b) = Some n \<and> map_of (curve2info d1) view = Some info \<and>
                  n \<in> set (touched info))"
    by simp
  note u = updateCurve_frame[OF whole(2)]
  have q1: "queue_ok p2i all q1" and keys: "fst ` set q \<subseteq> fst ` set q1"
    using Q by (simp_all add: whole(3))
  show ?thesis
    by (intro conjI) (rule u q1 keys none)+
next
  case split
  let ?raw = "all_crosses k current all"
  let ?xs = "sort_key (\<lambda>c. t (on1 c)) ?raw"
  from split(2) obtain crosses c2i s1 trims c2i1 where
    bc: "bounded_crosses current p2i ?xs (curve2info d) = Inr (crosses, c2i)" and
    tl: "trim_loop k p2i (map_of p2i (Id (on_curve (on1 (hd ?xs))))) (on_curve (on1 (hd ?xs)))
           visited crosses (t (on1 (hd crosses)), [], c2i, q) = Inr (s1, trims, c2i1, q1)" and
    uc: "updateCurve view trims p (d\<lparr>curve2info := c2i1\<rparr>) = Inr d1"
    by (rule split_curve_cases)
  note shape = all_crosses_shape[OF K kn cin]
  have sxs: "set ?xs = set ?raw" by (rule set_sort)
  have ne: "?xs \<noteq> []"
  proof
    assume "?xs = []"
    then have "set ?xs = {}" by (simp only: set_empty)
    then have "?raw = []" unfolding sxs by (simp only: set_empty)
    with split(1) show False by simp
  qed
  then have "hd ?xs \<in> set ?xs" by (rule hd_in_set)
  then have "hd ?xs \<in> set ?raw" unfolding sxs .
  with shape have "on_curve (on1 (hd ?xs)) = current" by simp
  then have owner: "map_of p2i (Id (on_curve (on1 (hd ?xs)))) = Some view"
    using view by simp
  note b = bounded_crosses_grows[OF bc]
  have sub: "set crosses \<subseteq> set ?raw
      \<union> {self_cross (TMin current) current, self_cross (TMax current) current}"
    using b(2) ne unfolding sxs by simp
  have on2all: "\<forall>x \<in> set crosses. on_curve (on2 x) \<in> set all"
  proof
    fix x assume "x \<in> set crosses"
    with sub have "x \<in> set ?raw \<or> x = self_cross (TMin current) current
        \<or> x = self_cross (TMax current) current"
      by auto
    then show "on_curve (on2 x) \<in> set all"
    proof (elim disjE)
      assume "x \<in> set ?raw"
      with shape show ?thesis by simp
    qed (simp_all add: self_cross_def cin)
  qed
  have sup: "set ?raw \<subseteq> set crosses" using b(3) ne unfolding sxs by simp
  from trim_loop_effect[OF tl on2all Q] have
    g2: "grows c2i c2i1" and q1: "queue_ok p2i all q1" and keys: "fst ` set q \<subseteq> fst ` set q1"
    and each: "\<forall>x \<in> set crosses. (Id (on_curve (on2 x)) \<notin> set visited
                        \<longrightarrow> Id (on_curve (on2 x)) \<in> fst ` set q1) \<and>
       (\<exists>n v info. map_of p2i (Id (on_curve (on2 x))) = Some n \<and>
                    map_of p2i (Id (on_curve (on1 (hd ?xs)))) = Some v \<and>
                    map_of c2i1 v = Some info \<and> n \<in> set (touched info))"
    by simp_all
  note u = updateCurve_frame[OF uc]
  from u(1) have g3: "grows c2i1 (curve2info d1)" by simp
  have g: "grows (curve2info d) (curve2info d1)"
    using grows_trans[OF grows_trans[OF b(1) g2] g3] .
  have touched: "(Id b \<notin> set visited \<longrightarrow> Id b \<in> fst ` set q1) \<and>
       (\<exists>n info. map_of p2i (Id b) = Some n \<and> map_of (curve2info d1) view = Some info \<and>
                  n \<in> set (touched info))"
    if "b \<in> set all" and "X current b" for b
  proof -
    from kernel_ok_report[OF K kn that]
    obtain x where "x \<in> set (IntersectWithAll k current all)"
      and x2: "on_curve (on2 x) = b"
      by blast
    then have "x \<in> set ?raw" by (simp add: all_crosses_def)
    with sup have "x \<in> set crosses" by (rule subsetD)
    with each have "(Id (on_curve (on2 x)) \<notin> set visited
                        \<longrightarrow> Id (on_curve (on2 x)) \<in> fst ` set q1) \<and>
       (\<exists>n v info. map_of p2i (Id (on_curve (on2 x))) = Some n \<and>
                    map_of p2i (Id (on_curve (on1 (hd ?xs)))) = Some v \<and>
                    map_of c2i1 v = Some info \<and> n \<in> set (touched info))"
      by (rule bspec)
    then obtain n v info where
      queued: "Id b \<notin> set visited \<longrightarrow> Id b \<in> fst ` set q1" and
      n: "map_of p2i (Id b) = Some n" and v: "map_of p2i (Id (on_curve (on1 (hd ?xs)))) = Some v"
      and info: "map_of c2i1 v = Some info" and mem: "n \<in> set (touched info)"
      unfolding x2 by (elim conjE exE)
    from v owner have "v = view" by simp
    with info have "map_of c2i1 view = Some info" by simp
    with g3 have "\<exists>info1. map_of (curve2info d1) view = Some info1 \<and>
           planarCurve info1 = planarCurve info \<and> placement info1 = placement info \<and>
           set (touched info) \<subseteq> set (touched info1)"
      unfolding grows_def by (elim conjE allE impE)
    then obtain info1 where "map_of (curve2info d1) view = Some info1"
      and "set (touched info) \<subseteq> set (touched info1)"
      by (elim conjE exE)
    with mem have "map_of (curve2info d1) view = Some info1 \<and> n \<in> set (touched info1)"
      by (simp add: subsetD)
    with n have "\<exists>n info. map_of p2i (Id b) = Some n \<and> map_of (curve2info d1) view = Some info \<and>
                  n \<in> set (touched info)"
      by auto
    with queued show ?thesis by (rule conjI)
  qed
  have all_touched: "\<forall>b \<in> set all. X current b \<longrightarrow>
       (Id b \<notin> set visited \<longrightarrow> Id b \<in> fst ` set q1) \<and>
       (\<exists>n info. map_of p2i (Id b) = Some n \<and> map_of (curve2info d1) view = Some info \<and>
                  n \<in> set (touched info))"
    by (intro ballI impI) (rule touched)
  from u(2,3) have ids: "id2planarCurve d1 = id2planarCurve d" "counter d1 = counter d"
    by simp_all
  show ?thesis
    by (intro conjI) (rule g ids q1 keys all_touched)+
qed

subsection \<open>The worklist\<close>

lemma known_inj:
  assumes "kernel_ok k X" and "known k c" and "known k c'" and "Id c = Id c'"
  shows "c = c'"
proof -
  from assms(2) obtain n p where n: "curve3d2curve2d k n = Some (c, p)"
    unfolding known_def by blast
  from assms(3) obtain m p' where m: "curve3d2curve2d k m = Some (c', p')"
    unfolding known_def by blast
  from kernel_ok_inj[OF assms(1) n m assms(4)] n m show ?thesis by simp
qed

lemma add_loop_effect:
  assumes "kernel_ok k X" and "\<forall>c \<in> set all. known k c"
    and "add_loop k p p2i all q visited d = Inr d1" and "queue_ok p2i all q"
  shows "grows (curve2info d) (curve2info d1) \<and>
    id2planarCurve d1 = id2planarCurve d \<and> counter d1 = counter d \<and>
    (\<forall>(i, c) \<in> set q. \<forall>b \<in> set all. X c b \<longrightarrow>
       (\<exists>v n info. map_of p2i i = Some v \<and> map_of p2i (Id b) = Some n \<and>
                    map_of (curve2info d1) v = Some info \<and> n \<in> set (touched info)))"
  using assms
proof (induction k p p2i all q visited d rule: add_loop.induct)
  case (1 k p p2i all q visited d)
  note K = "1.prems"(1) and kn = "1.prems"(2) and run = "1.prems"(3) and Q = "1.prems"(4)
  show ?case
  proof (cases q)
    case Nil
    with run have "d1 = d" by (simp add: add_loop_Nil)
    with Nil show ?thesis by (simp add: grows_refl)
  next
    case (Cons e rest)
    obtain i current where e: "e = (i, current)" by (cases e)
    from Q Cons e have i: "i = Id current" and cin: "current \<in> set all"
      unfolding queue_ok_def by auto
    from run[unfolded Cons e] obtain view q1 d2 where
      view: "map_of p2i i = Some view" and
      pc: "process_curve k p p2i all view current (set_add i visited)
             (AList.delete i ((i, current) # rest)) d = Inr (q1, d2)" and
      rec: "add_loop k p p2i all q1 (set_add i visited) d2 = Inr d1"
      by (rule add_loop_cases)
    have kc: "known k current" using kn cin by simp
    have Qd: "queue_ok p2i all (AList.delete i ((i, current) # rest))"
      using Q unfolding Cons e by (rule queue_ok_delete)
    from process_curve_effect[OF K kc cin view[unfolded i] Qd[unfolded i] pc[unfolded i]]
    have g1: "grows (curve2info d) (curve2info d2)"
      and ids1: "id2planarCurve d2 = id2planarCurve d" "counter d2 = counter d"
      and Q1: "queue_ok p2i all q1"
      and keys1: "fst ` set (AList.delete (Id current) ((Id current, current) # rest))
                    \<subseteq> fst ` set q1"
      and head: "\<forall>b \<in> set all. X current b \<longrightarrow>
         (Id b \<notin> set (set_add (Id current) visited) \<longrightarrow> Id b \<in> fst ` set q1) \<and>
         (\<exists>n info. map_of p2i (Id b) = Some n \<and> map_of (curve2info d2) view = Some info \<and>
                    n \<in> set (touched info))"
      by simp_all
    have pc': "process_curve k p p2i all view current (set_add i visited)
             (AList.delete i q) d = Inr (q1, d2)"
      using pc unfolding Cons e .
    from "1.IH"[OF Cons e[symmetric] view pc' refl K kn rec Q1]
    have g2: "grows (curve2info d2) (curve2info d1)"
      and ids2: "id2planarCurve d1 = id2planarCurve d2" "counter d1 = counter d2"
      and tail: "\<forall>(j, c) \<in> set q1. \<forall>b \<in> set all. X c b \<longrightarrow>
         (\<exists>v n info. map_of p2i j = Some v \<and> map_of p2i (Id b) = Some n \<and>
                      map_of (curve2info d1) v = Some info \<and> n \<in> set (touched info))"
      by simp_all
    have each: "\<exists>v n info. map_of p2i j = Some v \<and> map_of p2i (Id b) = Some n \<and>
                      map_of (curve2info d1) v = Some info \<and> n \<in> set (touched info)"
      if jc: "(j, c) \<in> set q" and b: "b \<in> set all" and x: "X c b" for j c b
    proof -
      from Q jc have j: "j = Id c" and c_all: "c \<in> set all" unfolding queue_ok_def by auto
      show ?thesis
      proof (cases "j = i")
        case True
        have "c = current"
          using K kn c_all cin j i True by (intro known_inj[of k X]) simp_all
        with head b x obtain n info where
          n: "map_of p2i (Id b) = Some n" and info: "map_of (curve2info d2) view = Some info"
          and mem: "n \<in> set (touched info)"
          by blast
        from g2 info obtain info1 where "map_of (curve2info d1) view = Some info1"
          and "set (touched info) \<subseteq> set (touched info1)"
          unfolding grows_def by blast
        with True view n mem show ?thesis by auto
      next
        case False
        with jc have "j \<in> fst ` set (AList.delete i q)"
          unfolding keys_delete by (auto intro: rev_image_eqI)
        with keys1 have "j \<in> fst ` set q1" unfolding Cons e i by blast
        then obtain c' where c': "(j, c') \<in> set q1" by auto
        with Q1 have "j = Id c'" and "c' \<in> set all" unfolding queue_ok_def by auto
        with j c_all kn K have "c' = c" by (intro known_inj[of k X]) simp_all
        with c' tail b x show ?thesis by blast
      qed
    qed
    have "grows (curve2info d) (curve2info d1)" using g1 g2 by (rule grows_trans)
    moreover have "id2planarCurve d1 = id2planarCurve d" "counter d1 = counter d"
      using ids1 ids2 by simp_all
    moreover have "\<forall>(j, c) \<in> set q. \<forall>b \<in> set all. X c b \<longrightarrow>
       (\<exists>v n info. map_of p2i j = Some v \<and> map_of p2i (Id b) = Some n \<and>
                    map_of (curve2info d1) v = Some info \<and> n \<in> set (touched info))"
      using each by blast
    ultimately show ?thesis by simp
  qed
qed

subsection \<open>The candidates and the map from planar curves to user curves\<close>

lemma collect_effect:
  assumes "kernel_ok k X"
    and "collect k p id2pc entries (p2i0, all0) = Inr (p2i, all)"
    and "\<forall>(n, info) \<in> set entries.
           \<exists>c pl. curve3d2curve2d k n = Some (c, pl) \<and> map_of id2pc (planarCurve info) = Some c"
  shows "(\<forall>c \<in> set all. c \<in> set all0 \<or> known k c) \<and>
    (\<forall>n info c pl. (n, info) \<in> set entries \<and> curve3d2curve2d k n = Some (c, pl) \<longrightarrow>
       map_of p2i (Id c) = Some n \<and>
       (isSamePlacement k p (placement info) \<longrightarrow> c \<in> set all)) \<and>
    set all0 \<subseteq> set all \<and>
    (\<forall>i m. map_of p2i0 i = Some m \<and>
       (\<forall>n info c pl. (n, info) \<in> set entries \<and> curve3d2curve2d k n = Some (c, pl) \<and> Id c = i
          \<longrightarrow> n = m)
       \<longrightarrow> map_of p2i i = Some m)"
  using assms(2,3)
proof (induction entries arbitrary: p2i0 all0)
  case Nil
  then show ?case by simp
next
  case (Cons e entries)
  obtain n info where e: "e = (n, info)" by (cases e)
  from Cons.prems(2) e obtain c pl where
    c: "curve3d2curve2d k n = Some (c, pl)" and look: "map_of id2pc (planarCurve info) = Some c"
    by auto
  let ?p2 = "AList.update (Id c) n p2i0"
  let ?al = "if isSamePlacement k p (placement info) then all0 @ [c] else all0"
  from Cons.prems(1) e look have run: "collect k p id2pc entries (?p2, ?al) = Inr (p2i, all)"
    by simp
  from Cons.prems(2) have rest: "\<forall>(n, info) \<in> set entries.
      \<exists>c pl. curve3d2curve2d k n = Some (c, pl) \<and> map_of id2pc (planarCurve info) = Some c"
    by simp
  note ih = Cons.IH[OF run rest]
  from ih have known_all: "\<forall>c \<in> set all. c \<in> set ?al \<or> known k c"
    and tail: "\<forall>n info c pl. (n, info) \<in> set entries \<and> curve3d2curve2d k n = Some (c, pl) \<longrightarrow>
       map_of p2i (Id c) = Some n \<and> (isSamePlacement k p (placement info) \<longrightarrow> c \<in> set all)"
    and sub: "set ?al \<subseteq> set all"
    and keep: "\<forall>i m. map_of ?p2 i = Some m \<and>
       (\<forall>n info c pl. (n, info) \<in> set entries \<and> curve3d2curve2d k n = Some (c, pl) \<and> Id c = i
          \<longrightarrow> n = m)
       \<longrightarrow> map_of p2i i = Some m"
    by simp_all
  have kc: "known k c" using c unfolding known_def by blast
  have 1: "\<forall>c \<in> set all. c \<in> set all0 \<or> known k c"
    using known_all kc by (auto split: if_splits)
  have head_p2i: "map_of p2i (Id c) = Some n"
  proof -
    have "map_of ?p2 (Id c) = Some n" by (simp add: update_conv')
    moreover have "\<forall>n' info' c' pl'. (n', info') \<in> set entries \<and>
        curve3d2curve2d k n' = Some (c', pl') \<and> Id c' = Id c \<longrightarrow> n' = n"
      using kernel_ok_inj[OF assms(1) _ c] by blast
    ultimately show ?thesis using keep by blast
  qed
  have head_all: "isSamePlacement k p (placement info) \<longrightarrow> c \<in> set all"
    using sub by auto
  have 2: "\<forall>n' info' c' pl'. (n', info') \<in> set (e # entries) \<and>
       curve3d2curve2d k n' = Some (c', pl') \<longrightarrow>
       map_of p2i (Id c') = Some n' \<and> (isSamePlacement k p (placement info') \<longrightarrow> c' \<in> set all)"
    using tail head_p2i head_all c unfolding e by auto
  have 3: "set all0 \<subseteq> set all" using sub by (auto split: if_splits)
  have 4: "\<forall>i m. map_of p2i0 i = Some m \<and>
       (\<forall>n' info' c' pl'. (n', info') \<in> set (e # entries) \<and>
          curve3d2curve2d k n' = Some (c', pl') \<and> Id c' = i \<longrightarrow> n' = m)
       \<longrightarrow> map_of p2i i = Some m"
  proof (intro allI impI, elim conjE)
    fix i m
    assume old: "map_of p2i0 i = Some m"
      and agree: "\<forall>n' info' c' pl'. (n', info') \<in> set (e # entries) \<and>
          curve3d2curve2d k n' = Some (c', pl') \<and> Id c' = i \<longrightarrow> n' = m"
    have "map_of ?p2 i = Some m"
    proof (cases "i = Id c")
      case True
      with agree c have "n = m" unfolding e by auto
      with True show ?thesis by (simp add: update_conv')
    next
      case False
      with old show ?thesis by (simp add: update_conv')
    qed
    moreover from agree have "\<forall>n' info' c' pl'. (n', info') \<in> set entries \<and>
          curve3d2curve2d k n' = Some (c', pl') \<and> Id c' = i \<longrightarrow> n' = m"
      by auto
    ultimately show "map_of p2i i = Some m" using keep by blast
  qed
  from 1 2 3 4 show ?case by blast
qed

subsection \<open>One add\<close>

lemma grows_entry:
  assumes "grows c2i c2i1" and "distinct (map fst c2i)" and "map_of c2i1 n = Some info1"
  obtains info where "map_of c2i n = Some info" "planarCurve info1 = planarCurve info"
    "placement info1 = placement info" "set (touched info) \<subseteq> set (touched info1)"
proof -
  from assms(3) have "n \<in> fst ` set c2i1" by (metis map_of_eq_None_iff option.distinct(1))
  then have "n \<in> set (map fst c2i1)" by simp
  with assms(1) have "n \<in> set (map fst c2i)" unfolding grows_def by simp
  then have "n \<in> fst ` set c2i" by simp
  then obtain info where info: "map_of c2i n = Some info"
    by (metis map_of_eq_None_iff not_Some_eq)
  with assms(1) obtain info' where "map_of c2i1 n = Some info'"
    "planarCurve info' = planarCurve info" "placement info' = placement info"
    "set (touched info) \<subseteq> set (touched info')"
    unfolding grows_def by blast
  with assms(3) info show thesis by (intro that[of info]) simp_all
qed

lemma add_preserves:
  assumes K: "kernel_ok k X" and R: "registry_ok k d"
    and T: "touch_complete k X (curve2info d)"
    and fresh: "N \<notin> fst ` set (curve2info d)" and run: "add k N d = Inr d1"
  shows "registry_ok k d1 \<and> touch_complete k X (curve2info d1) \<and>
         fst ` set (curve2info d1) \<subseteq> insert N (fst ` set (curve2info d))"
proof (cases "curve3d2curve2d k N")
  case None
  with run have "d1 = d" by (simp add: add_not_planar)
  with R T show ?thesis by auto
next
  case (Some r)
  obtain cN pl where r: "r = (cN, pl)" by (cases r)
  note cN = Some[unfolded r]
  let ?c2i = "curve2info d"
  let ?reg = "AList.update N (new_CurveInfo (counter d) pN) ?c2i"
  from cN run obtain pN ps p2i0 all0 where
    col: "collect k pN (id2planarCurve d) ?c2i ([], []) = Inr (p2i0, all0)" and
    loop: "add_loop k pN (AList.update (Id cN) N p2i0) (all0 @ [cN]) [(Id cN, cN)] []
       (d\<lparr>placements := ps, counter := Suc (counter d),
          id2planarCurve := AList.update (counter d) cN (id2planarCurve d),
          curve2info := AList.update N (new_CurveInfo (counter d) pN) ?c2i\<rparr>) = Inr d1"
    by (rule add_unfold)
  let ?p2i = "AList.update (Id cN) N p2i0"
  let ?all = "all0 @ [cN]"
  let ?dreg = "d\<lparr>placements := ps, counter := Suc (counter d),
          id2planarCurve := AList.update (counter d) cN (id2planarCurve d),
          curve2info := AList.update N (new_CurveInfo (counter d) pN) ?c2i\<rparr>"
  have reg: "curve2info ?dreg = ?c2i @ [(N, new_CurveInfo (counter d) pN)]"
    using fresh by (simp add: update_fresh)
  have dist: "distinct (map fst ?c2i)" using R unfolding registry_ok_def by simp
  have dist_reg: "distinct (map fst (curve2info ?dreg))"
    unfolding reg using dist fresh by simp
  have entries: "\<forall>(n, info) \<in> set ?c2i.
      \<exists>c pl. curve3d2curve2d k n = Some (c, pl) \<and>
             map_of (id2planarCurve d) (planarCurve info) = Some c"
    using R unfolding registry_ok_def by blast
  note ce = collect_effect[OF K col entries]
  have kN: "known k cN" using cN unfolding known_def by blast
  have known_all: "\<forall>c \<in> set ?all. known k c" using ce kN by auto
  have old_p2i: "map_of ?p2i (Id c) = Some n \<and> (isSamePlacement k pN (placement info) \<longrightarrow> c \<in> set ?all)"
    if "map_of ?c2i n = Some info" and "curve3d2curve2d k n = Some (c, q)" for n info c q
  proof -
    from that(1) have mem: "(n, info) \<in> set ?c2i" by (rule map_of_SomeD)
    with fresh have "n \<noteq> N" by (auto intro: rev_image_eqI)
    with kernel_ok_inj[OF K that(2) cN] have "Id c \<noteq> Id cN" by blast
    moreover from ce mem that(2) have "map_of p2i0 (Id c) = Some n"
      and "isSamePlacement k pN (placement info) \<longrightarrow> c \<in> set all0"
      by blast+
    ultimately show ?thesis by (simp add: update_conv')
  qed
  have new_p2i: "map_of ?p2i (Id cN) = Some N" by (simp add: update_conv')
  have Q0: "queue_ok ?p2i ?all [(Id cN, cN)]"
    by (simp add: queue_ok_def AList.dom_update)
  from loop obtain view q1 d2 where
    view: "map_of ?p2i (Id cN) = Some view" and
    pc: "process_curve k pN ?p2i ?all view cN (set_add (Id cN) [])
           (AList.delete (Id cN) [(Id cN, cN)]) ?dreg = Inr (q1, d2)" and
    rec: "add_loop k pN ?p2i ?all q1 (set_add (Id cN) []) d2 = Inr d1"
    by (rule add_loop_cases)
  from view new_p2i have vN: "view = N" by simp
  have cin: "cN \<in> set ?all" by simp
  have Qd: "queue_ok ?p2i ?all (AList.delete (Id cN) [(Id cN, cN)])"
    using Q0 by (rule queue_ok_delete)
  from process_curve_effect[OF K kN cin view Qd pc]
  have g1: "grows (curve2info ?dreg) (curve2info d2)"
    and ids1: "id2planarCurve d2 = id2planarCurve ?dreg" "counter d2 = counter ?dreg"
    and Q1: "queue_ok ?p2i ?all q1"
    and head: "\<forall>b \<in> set ?all. X cN b \<longrightarrow>
         (Id b \<notin> set (set_add (Id cN) []) \<longrightarrow> Id b \<in> fst ` set q1) \<and>
         (\<exists>n info. map_of ?p2i (Id b) = Some n \<and> map_of (curve2info d2) view = Some info \<and>
                    n \<in> set (touched info))"
    by simp_all
  from add_loop_effect[OF K known_all rec Q1]
  have g2: "grows (curve2info d2) (curve2info d1)"
    and ids2: "id2planarCurve d1 = id2planarCurve d2" "counter d1 = counter d2"
    and tail: "\<forall>(j, c) \<in> set q1. \<forall>b \<in> set ?all. X c b \<longrightarrow>
         (\<exists>v n info. map_of ?p2i j = Some v \<and> map_of ?p2i (Id b) = Some n \<and>
                      map_of (curve2info d1) v = Some info \<and> n \<in> set (touched info))"
    by simp_all
  have g: "grows (curve2info ?dreg) (curve2info d1)" using g1 g2 by (rule grows_trans)
  have keys1: "map fst (curve2info d1) = map fst ?c2i @ [N]"
    using g unfolding grows_def reg by simp
  have id2pc: "id2planarCurve d1 = AList.update (counter d) cN (id2planarCurve d)"
    and cnt: "counter d1 = Suc (counter d)"
    using ids1 ids2 by simp_all
  have lookup_reg: "map_of (curve2info ?dreg) n =
      (if n = N then Some (new_CurveInfo (counter d) pN) else map_of ?c2i n)" for n
    by (simp add: update_conv')
  have R1: "registry_ok k d1"
    unfolding registry_ok_def
  proof (intro conjI ballI, goal_cases)
    case 1
    show ?case unfolding keys1 using dist fresh by simp
  next
    case (2 e)
    obtain n info1 where e: "e = (n, info1)" by (cases e)
    have d1: "distinct (map fst (curve2info d1))" unfolding keys1 using dist fresh by simp
    with 2 e have "map_of (curve2info d1) n = Some info1" by simp
    from grows_entry[OF g dist_reg this] obtain info where
      info: "map_of (curve2info ?dreg) n = Some info" and pc: "planarCurve info1 = planarCurve info"
      by blast
    show ?case
    proof (cases "n = N")
      case True
      with info have "planarCurve info = counter d"
        unfolding lookup_reg by (auto simp: new_CurveInfo_def)
      with pc cN True show ?thesis unfolding e
        by (simp add: cnt id2pc update_conv')
    next
      case False
      with info have old: "map_of ?c2i n = Some info" unfolding lookup_reg by simp
      then have "(n, info) \<in> set ?c2i" by (rule map_of_SomeD)
      with R obtain c q where "planarCurve info < counter d"
        and "curve3d2curve2d k n = Some (c, q)"
        and "map_of (id2planarCurve d) (planarCurve info) = Some c"
        unfolding registry_ok_def by blast
      with pc show ?thesis unfolding e
        by (simp add: cnt id2pc update_conv')
    qed
  qed
  have T1: "touch_complete k X (curve2info d1)"
    unfolding touch_complete_def
  proof (intro allI impI, elim conjE)
    fix a ia b ib ca pa cb pb
    assume a: "map_of (curve2info d1) a = Some ia" and b: "map_of (curve2info d1) b = Some ib"
      and ne: "a \<noteq> b"
      and same: "isSamePlacement k (placement ia) (placement ib)"
      and ca: "curve3d2curve2d k a = Some (ca, pa)" and cb: "curve3d2curve2d k b = Some (cb, pb)"
      and x: "X ca cb"
    from grows_entry[OF g dist_reg a] obtain ia0 where
      ia0: "map_of (curve2info ?dreg) a = Some ia0" and pla: "placement ia = placement ia0"
      and tia: "set (touched ia0) \<subseteq> set (touched ia)"
      by blast
    from grows_entry[OF g dist_reg b] obtain ib0 where
      ib0: "map_of (curve2info ?dreg) b = Some ib0" and plb: "placement ib = placement ib0"
      by blast
    show "b \<in> set (touched ia)"
    proof (cases "a = N")
      case aN: True
      with ne have bN: "b \<noteq> N" by simp
      from aN ia0 have "placement ia0 = pN" unfolding lookup_reg by (auto simp: new_CurveInfo_def)
      with same pla plb have sameN: "isSamePlacement k pN (placement ib0)" by simp
      from bN ib0 have oldb: "map_of ?c2i b = Some ib0" unfolding lookup_reg by simp
      from old_p2i[OF oldb cb] sameN have pb2: "map_of ?p2i (Id cb) = Some b"
        and ball: "cb \<in> set ?all" by simp_all
      from aN ca cN have "ca = cN" by simp
      with x have "X cN cb" by simp
      with head ball obtain n info where "map_of ?p2i (Id cb) = Some n"
        and "map_of (curve2info d2) view = Some info" and "n \<in> set (touched info)"
        by blast
      with pb2 vN aN have "map_of (curve2info d2) a = Some info" and "b \<in> set (touched info)"
        by simp_all
      with g2 obtain info1 where "map_of (curve2info d1) a = Some info1"
        and "set (touched info) \<subseteq> set (touched info1)"
        unfolding grows_def by blast
      with a \<open>b \<in> set (touched info)\<close> show ?thesis by auto
    next
      case aN: False
      from aN ia0 have olda: "map_of ?c2i a = Some ia0" unfolding lookup_reg by simp
      show ?thesis
      proof (cases "b = N")
        case bN: False
        with ib0 have oldb: "map_of ?c2i b = Some ib0" unfolding lookup_reg by simp
        from same pla plb have "isSamePlacement k (placement ia0) (placement ib0)" by simp
        with T olda oldb ne ca cb x have "b \<in> set (touched ia0)"
          unfolding touch_complete_def by blast
        with tia show ?thesis by blast
      next
        case bN: True
        from bN ib0 have "placement ib0 = pN"
          unfolding lookup_reg by (auto simp: new_CurveInfo_def)
        with same pla plb have "isSamePlacement k (placement ia0) pN" by simp
        then have sameN: "isSamePlacement k pN (placement ia0)"
          by (rule kernel_ok_same[OF K])
        from old_p2i[OF olda ca] sameN have pa2: "map_of ?p2i (Id ca) = Some a"
          and aall: "ca \<in> set ?all" by simp_all
        from bN cb cN have cbN: "cb = cN" by simp
        from x have "X cN ca" unfolding cbN by (rule kernel_ok_sym[OF K])
        moreover have "Id ca \<noteq> Id cN"
          using kernel_ok_inj[OF K ca cN] aN by blast
        ultimately have "Id ca \<in> fst ` set q1"
          using head aall by (auto simp: set_add_def)
        then obtain c' where c': "(Id ca, c') \<in> set q1" by auto
        with Q1 have idc: "Id c' = Id ca" and c'all: "c' \<in> set ?all"
          unfolding queue_ok_def by auto
        from known_all c'all have "known k c'" by (rule bspec)
        moreover from known_all aall have "known k ca" by (rule bspec)
        ultimately have "c' = ca" using idc by (rule known_inj[OF K])
        with c' have "(Id ca, ca) \<in> set q1" by simp
        with tail cin x[unfolded cbN] obtain v n info where
          "map_of ?p2i (Id ca) = Some v" and "map_of ?p2i (Id cN) = Some n"
          and "map_of (curve2info d1) v = Some info" and "n \<in> set (touched info)"
          by blast
        with pa2 new_p2i a bN show ?thesis by simp
      qed
    qed
  qed
  have "fst ` set (curve2info d1) \<subseteq> insert N (fst ` set ?c2i)"
  proof -
    have "fst ` set (curve2info d1) = set (map fst (curve2info d1))" by simp
    also have "\<dots> = insert N (fst ` set ?c2i)" unfolding keys1 by simp
    finally show ?thesis by simp
  qed
  with R1 T1 show ?thesis by simp
qed

subsection \<open>Any sequence of adds\<close>

lemma add_all_invariant:
  assumes "kernel_ok k X" and "registry_ok k d" and "touch_complete k X (curve2info d)"
    and "distinct ns" and "set ns \<inter> fst ` set (curve2info d) = {}"
    and "add_all k ns d = Inr d1"
  shows "registry_ok k d1 \<and> touch_complete k X (curve2info d1)"
  using assms(2-)
proof (induction ns arbitrary: d)
  case Nil
  then show ?case by simp
next
  case (Cons N ns)
  from Cons.prems(5) obtain d2 where
    step: "add k N d = Inr d2" and rest: "add_all k ns (settle d2) = Inr d1"
    by (auto split: sum.splits)
  from Cons.prems(4) have fresh: "N \<notin> fst ` set (curve2info d)" by simp
  from add_preserves[OF assms(1) Cons.prems(1,2) fresh step]
  have R: "registry_ok k (settle d2)" and T: "touch_complete k X (curve2info (settle d2))"
    and keys: "fst ` set (curve2info (settle d2)) \<subseteq> insert N (fst ` set (curve2info d))"
    by (simp_all add: registry_ok_settle)
  from Cons.prems(3) have dist: "distinct ns" and "N \<notin> set ns" by simp_all
  with Cons.prems(4) keys have disj: "set ns \<inter> fst ` set (curve2info (settle d2)) = {}"
    by auto
  from Cons.IH[OF R T dist disj rest] show ?case .
qed

text \<open>
  Claim C7 (touch symmetry at quiescence).  The kernel is any kernel whose crossing
  relation \<open>X\<close> is symmetric and faithfully reported (\<open>kernel_ok\<close>).  Starting from an
  empty registry, distinct user curves are added one after the other, and every add
  returns.  Then for registered curves \<open>A\<close> and \<open>B\<close> on the same placement whose planar
  curves cross, \<open>A\<close> touches \<open>B\<close> if and only if \<open>B\<close> touches \<open>A\<close>; indeed both touch
  each other.
\<close>

theorem touched_symmetric:
  assumes "kernel_ok k X" and "distinct ns" and "curve2info d0 = []"
    and "add_all k ns d0 = Inr d"
    and "map_of (curve2info d) A = Some infoA" and "map_of (curve2info d) B = Some infoB"
    and "A \<noteq> B"
    and "isSamePlacement k (placement infoA) (placement infoB)"
    and "curve3d2curve2d k A = Some (cA, pA)" and "curve3d2curve2d k B = Some (cB, pB)"
    and "X cA cB"
  shows "(B \<in> set (touched infoA) \<longleftrightarrow> A \<in> set (touched infoB)) \<and>
         B \<in> set (touched infoA) \<and> A \<in> set (touched infoB)"
proof -
  have R0: "registry_ok k d0" and T0: "touch_complete k X (curve2info d0)"
    using assms(3) by (simp_all add: registry_ok_def touch_complete_def)
  have disj: "set ns \<inter> fst ` set (curve2info d0) = {}" using assms(3) by simp
  from add_all_invariant[OF assms(1) R0 T0 assms(2) disj assms(4)]
  have T: "touch_complete k X (curve2info d)" by simp
  from T assms(5,6,7,8,9,10,11) have ab: "B \<in> set (touched infoA)"
    unfolding touch_complete_def by blast
  have "isSamePlacement k (placement infoB) (placement infoA)"
    using assms(8) by (rule kernel_ok_same[OF assms(1)])
  moreover have "X cB cA" using assms(11) by (rule kernel_ok_sym[OF assms(1)])
  moreover have "B \<noteq> A" using assms(7) by simp
  ultimately have ba: "A \<in> set (touched infoB)"
    using T assms(5,6,9,10) unfolding touch_complete_def by blast
  from ab ba show ?thesis by simp
qed

lemma cross_kernel_curves:
  assumes "curve3d2curve2d cross_kernel n = Some (c, p)"
  shows "(n = 1 \<and> c = segment 10) \<or> (n = 2 \<and> c = segment 20) \<or> (n = 3 \<and> c = circle 30)"
proof -
  have "curve3d2curve2d cross_kernel n =
      (if n = 1 then Some (segment 10, 0) else if n = 2 then Some (segment 20, 0)
       else if n = 3 then Some (circle 30, 0) else None)"
    by (simp add: cross_kernel_def)
  with assms show ?thesis by (simp split: if_splits)
qed

lemma cross_kernel_known:
  assumes "known cross_kernel c"
  shows "c = segment 10 \<or> c = segment 20 \<or> c = circle 30"
proof -
  from assms obtain n p where "curve3d2curve2d cross_kernel n = Some (c, p)"
    unfolding known_def by (elim exE)
  from cross_kernel_curves[OF this] show ?thesis by auto
qed

lemma segment_ids:
  "Id (segment i) = i" "Id (circle i) = i" "segment i \<noteq> circle j"
  by (simp_all add: segment_def circle_def)

lemma cross_kernel_intersect:
  "IntersectWithAll cross_kernel c all =
      (if Id c = 10 \<and> segment 20 \<in> set all
       then [cross_at (segment 10) (1 / 2) (segment 20) (1 / 2)]
       else if Id c = 20 \<and> segment 10 \<in> set all
       then [cross_at (segment 20) (1 / 2) (segment 10) (1 / 2)]
       else [])"
  by (simp add: cross_kernel_def)

lemma cross_kernel_ok: "kernel_ok cross_kernel segments_cross"
proof -
  have sym: "\<forall>a b. segments_cross a b \<longrightarrow> segments_cross b a"
    by (auto simp: segments_cross_def)
  have same: "\<forall>p q. isSamePlacement cross_kernel p q \<longrightarrow> isSamePlacement cross_kernel q p"
    by (simp add: cross_kernel_def)
  have inj: "\<forall>n m c c' p p'. curve3d2curve2d cross_kernel n = Some (c, p) \<and>
      curve3d2curve2d cross_kernel m = Some (c', p') \<and> Id c = Id c' \<longrightarrow> n = m"
  proof (intro allI impI, elim conjE)
    fix n m c c' p p'
    assume n: "curve3d2curve2d cross_kernel n = Some (c, p)"
      and m: "curve3d2curve2d cross_kernel m = Some (c', p')" and i: "Id c = Id c'"
    from cross_kernel_curves[OF n] cross_kernel_curves[OF m] i show "n = m"
      by (auto simp: segment_ids)
  qed
  have crosses: "\<forall>c all x. known cross_kernel c \<and> x \<in> set (IntersectWithAll cross_kernel c all)
      \<longrightarrow> on_curve (on1 x) = c \<and> on_curve (on2 x) \<in> set all"
  proof (intro allI impI, elim conjE)
    fix c all x
    assume kn: "known cross_kernel c" and x: "x \<in> set (IntersectWithAll cross_kernel c all)"
    from kn have "c = segment 10 \<or> c = segment 20 \<or> c = circle 30"
      by (rule cross_kernel_known)
    then show "on_curve (on1 x) = c \<and> on_curve (on2 x) \<in> set all"
    proof (elim disjE)
      assume "c = segment 10"
      with x show ?thesis
        unfolding cross_kernel_intersect by (simp add: segment_ids cross_at_def split: if_splits)
    next
      assume "c = segment 20"
      with x show ?thesis
        unfolding cross_kernel_intersect by (simp add: segment_ids cross_at_def split: if_splits)
    next
      assume "c = circle 30"
      with x show ?thesis unfolding cross_kernel_intersect by (simp add: segment_ids)
    qed
  qed
  have report: "\<forall>c all b. known cross_kernel c \<and> b \<in> set all \<and> segments_cross c b
      \<longrightarrow> (\<exists>x \<in> set (IntersectWithAll cross_kernel c all). on_curve (on2 x) = b)"
  proof (intro allI impI, elim conjE)
    fix c all b
    assume b: "b \<in> set all" and "segments_cross c b"
    then have "(c = segment 10 \<and> b = segment 20) \<or> (c = segment 20 \<and> b = segment 10)"
      by (simp add: segments_cross_def)
    then show "\<exists>x \<in> set (IntersectWithAll cross_kernel c all). on_curve (on2 x) = b"
    proof (elim disjE conjE)
      assume "c = segment 10" "b = segment 20"
      with b show ?thesis
        unfolding cross_kernel_intersect by (simp add: segment_ids cross_at_def)
    next
      assume "c = segment 20" "b = segment 10"
      with b show ?thesis
        unfolding cross_kernel_intersect by (simp add: segment_ids cross_at_def)
    qed
  qed
  from sym same inj crosses report show ?thesis
    unfolding kernel_ok_def by (intro conjI)
qed

lemma crossed_db_adds: "add_all cross_kernel [1, 2] empty_db = Inr crossed_db"
  by code_simp

theorem touched_symmetric_witness:
  "kernel_ok cross_kernel segments_cross \<and> distinct [1 :: name, 2] \<and>
   curve2info empty_db = [] \<and>
   add_all cross_kernel [1, 2] empty_db = Inr crossed_db \<and>
   map_of (curve2info crossed_db) 1
     = Some \<lparr>planarCurve = 0, placement = 0, touched = [1, 2], fragments = [103, 104],
             joints_start = None, joints_stop = None\<rparr> \<and>
   map_of (curve2info crossed_db) 2
     = Some \<lparr>planarCurve = 1, placement = 0, touched = [2, 1], fragments = [101, 102],
             joints_start = None, joints_stop = None\<rparr> \<and>
   isSamePlacement cross_kernel 0 0 \<and>
   curve3d2curve2d cross_kernel 1 = Some (segment 10, 0) \<and>
   curve3d2curve2d cross_kernel 2 = Some (segment 20, 0) \<and>
   segments_cross (segment 10) (segment 20) \<and>
   2 \<in> set [1 :: name, 2] \<and> 1 \<in> set [2 :: name, 1]"
proof -
  let ?i1 = "\<lparr>planarCurve = 0, placement = 0, touched = [1, 2], fragments = [103, 104],
             joints_start = None, joints_stop = None\<rparr>"
  let ?i2 = "\<lparr>planarCurve = 1, placement = 0, touched = [2, 1], fragments = [101, 102],
             joints_start = None, joints_stop = None\<rparr>"
  have ds: "distinct [1 :: name, 2]" and e: "curve2info empty_db = []"
    by (simp_all add: empty_db_def)
  have a: "map_of (curve2info crossed_db) 1 = Some ?i1"
    and b: "map_of (curve2info crossed_db) 2 = Some ?i2"
    by (simp_all add: crossed_db_def)
  have ne: "(1 :: name) \<noteq> 2" by simp
  have same: "isSamePlacement cross_kernel (placement ?i1) (placement ?i2)"
    by (simp add: cross_kernel_def)
  have c1: "curve3d2curve2d cross_kernel 1 = Some (segment 10, 0)"
    and c2: "curve3d2curve2d cross_kernel 2 = Some (segment 20, 0)"
    by (simp_all add: cross_kernel_def)
  have x: "segments_cross (segment 10) (segment 20)" by (simp add: segments_cross_def)
  from touched_symmetric[OF cross_kernel_ok ds e crossed_db_adds a b ne same c1 c2 x]
  have "2 \<in> set (touched ?i1)" and "1 \<in> set (touched ?i2)" by simp_all
  then have "2 \<in> set [1 :: name, 2]" and "1 \<in> set [2 :: name, 1]" by simp_all
  with cross_kernel_ok ds e crossed_db_adds a b same c1 c2 x show ?thesis
    by (simp add: cross_kernel_def)
qed

section \<open>Coverage of a curve by its fragments\<close>

subsection \<open>The store\<close>

lemma addItem_lookup:
  assumes "store_ok s" and "addItem it s = (n, s1)"
  shows "store_ok s1" and "n = next_simpleName s" and "next_simpleName s1 = Suc n"
    and "map_of (items s1) n = Some it"
    and "\<forall>k < n. map_of (items s1) k = map_of (items s) k"
proof -
  from assms(2) have n: "n = next_simpleName s"
    and s1: "s1 = s\<lparr>items := items s @ [(n, it)], next_simpleName := Suc n\<rparr>"
    by (auto simp: addItem_def)
  from assms(1) have fresh: "n \<notin> fst ` set (items s)"
    unfolding store_ok_def n by blast
  then have none: "map_of (items s) n = None" by (simp add: map_of_eq_None_iff)
  show "n = next_simpleName s" by (rule n)
  show "next_simpleName s1 = Suc n" by (simp add: s1)
  show "store_ok s1" using assms(1) by (auto simp: store_ok_def s1 n)
  show "map_of (items s1) n = Some it" by (simp add: s1 map_add_def none)
  show "\<forall>k < n. map_of (items s1) k = map_of (items s) k"
    by (simp add: s1 map_add_def split: option.splits)
qed

lemma add_fragments_lookup:
  assumes "store_ok s" and "add_fragments v p trims s = (views, s1)"
  shows "store_ok s1 \<and> next_simpleName s \<le> next_simpleName s1 \<and>
         (\<forall>k < next_simpleName s. map_of (items s1) k = map_of (items s) k) \<and>
         (\<forall>f \<in> set views. next_simpleName s \<le> f \<and> f < next_simpleName s1) \<and>
         map (map_of (items s1)) views =
           map (\<lambda>tr. Some \<lparr>item_placement = p, item_piece = trimmed tr, item_start = start tr,
                            item_stop = stop tr, item_owner = v\<rparr>) trims"
  using assms
proof (induction trims arbitrary: s views s1)
  case Nil
  then show ?case by simp
next
  case (Cons tr trims)
  let ?it = "\<lparr>item_placement = p, item_piece = trimmed tr, item_start = start tr,
                item_stop = stop tr, item_owner = v\<rparr>"
  obtain n s2 where ai: "addItem ?it s = (n, s2)" by (cases "addItem ?it s")
  obtain vs s3 where af: "add_fragments v p trims s2 = (vs, s3)"
    by (cases "add_fragments v p trims s2")
  from Cons.prems(2) ai af have views: "views = n # vs" and s1: "s1 = s3" by simp_all
  note a = addItem_lookup[OF Cons.prems(1) ai]
  from Cons.IH[OF a(1) af] have
    ok: "store_ok s3" and le: "next_simpleName s2 \<le> next_simpleName s3"
    and old: "\<forall>k < next_simpleName s2. map_of (items s3) k = map_of (items s2) k"
    and range: "\<forall>f \<in> set vs. next_simpleName s2 \<le> f \<and> f < next_simpleName s3"
    and new: "map (map_of (items s3)) vs =
           map (\<lambda>tr. Some \<lparr>item_placement = p, item_piece = trimmed tr, item_start = start tr,
                            item_stop = stop tr, item_owner = v\<rparr>) trims"
    by simp_all
  have "map_of (items s3) n = Some ?it" using old a(3,4) by simp
  moreover have "\<forall>k < next_simpleName s. map_of (items s3) k = map_of (items s) k"
    using old a(2,3,5) by simp
  moreover have "next_simpleName s \<le> next_simpleName s3" using le a(2,3) by simp
  moreover have "\<forall>f \<in> set views. next_simpleName s \<le> f \<and> f < next_simpleName s3"
    using range le a(2,3) by (auto simp: views)
  ultimately show ?case using ok new by (simp add: views s1)
qed

lemma store_ok_lookup:
  assumes "store_ok s" and "map_of (items s) f = Some it"
  shows "f < next_simpleName s"
proof -
  from assms(2) have "f \<in> fst ` set (items s)"
    by (metis map_of_eq_None_iff option.distinct(1))
  with assms(1) show ?thesis unfolding store_ok_def by blast
qed

lemma records_cong:
  assumes "\<forall>f \<in> set fs. map_of (items s1) f = map_of (items s) f"
  shows "records s1 fs = records s fs"
  using assms by (simp add: records_def)

lemma records_ranges:
  assumes "records s fs = map Some rs"
  shows "concat (map (\<lambda>f. case map_of (items s) f of
                            None \<Rightarrow> []
                          | Some it \<Rightarrow> [(item_start it, item_stop it)]) fs)
           = map (\<lambda>(pc, a, b, w). (a, b)) rs"
  using assms
proof (induction fs arbitrary: rs)
  case Nil
  then show ?case by (simp add: records_def)
next
  case (Cons f fs)
  from Cons.prems obtain r rs' where rs: "rs = r # rs'"
    by (cases rs) (simp_all add: records_def)
  from Cons.prems rs have head: "map_option provenance (map_of (items s) f) = Some r"
    and tail: "records s fs = map Some rs'"
    by (simp_all add: records_def)
  from head obtain it where it: "map_of (items s) f = Some it" and r: "r = provenance it"
    by auto
  from Cons.IH[OF tail] it r rs show ?case
    by (simp add: provenance_def)
qed

subsection \<open>The fragments the registered curves own\<close>

lemma fragments_of_update:
  "fragments_of (AList.update n info c2i) = AList.update n (fragments info) (fragments_of c2i)"
  by (induction c2i) (auto simp: fragments_of_def)

lemma owned_lookup: "owned d v = map_option fragments (map_of (curve2info d) v)"
  by (simp add: owned_def fragments_of_def map_of_map)

lemma fragments_of_same:
  assumes "map_of c2i n = Some info" and "fragments info1 = fragments info"
  shows "fragments_of (AList.update n info1 c2i) = fragments_of c2i"
proof -
  from assms(1) have "map_of (fragments_of c2i) n = Some (fragments info)"
    by (simp add: fragments_of_def map_of_map)
  then have "AList.update n (fragments info) (fragments_of c2i) = fragments_of c2i"
    by (rule update_triv)
  with assms(2) show ?thesis by (simp add: fragments_of_update)
qed

lemma write_joint_fragments:
  assumes "write_joint owner b j c2i = Inr c2i1"
  shows "fragments_of c2i1 = fragments_of c2i"
proof -
  from assms obtain n info where info: "map_of c2i n = Some info"
    and c2i1: "c2i1 = AList.update n (if b then info\<lparr>joints_start := Some j\<rparr>
                                       else info\<lparr>joints_stop := Some j\<rparr>) c2i"
    by (auto simp: write_joint_def split: option.splits)
  show ?thesis unfolding c2i1 by (rule fragments_of_same[OF info]) simp
qed

lemma touch_fragments:
  assumes "touch owner x c2i = Inr c2i1"
  shows "fragments_of c2i1 = fragments_of c2i"
proof -
  from assms obtain n info where info: "map_of c2i n = Some info"
    and c2i1: "c2i1 = AList.update n (info\<lparr>touched := set_add x (touched info)\<rparr>) c2i"
    by (auto simp: touch_def split: option.splits)
  show ?thesis unfolding c2i1 by (rule fragments_of_same[OF info]) simp
qed

lemma addJoint_fragments:
  assumes "addJoint x p2i c2i = Inr c2i1"
  shows "fragments_of c2i1 = fragments_of c2i"
proof (cases "t (on1 x) \<noteq> TMin (on_curve (on1 x)) \<and> t (on1 x) \<noteq> TMax (on_curve (on1 x))")
  case True
  with assms show ?thesis by (simp add: addJoint_def Let_def)
next
  case False
  note unf = addJoint_unfold[OF False, of p2i c2i]
  let ?w1 = "write_joint (map_of p2i (Id (on_curve (on1 x))))
             (t (on1 x) = TMin (on_curve (on1 x)))
             \<lparr>joint_on1 = point_of (map_of p2i (Id (on_curve (on1 x)))) (on1 x),
               joint_on2 = point_of (map_of p2i (Id (on_curve (on2 x)))) (on2 x)\<rparr> c2i"
  show ?thesis
  proof (cases ?w1)
    case (Inl e)
    with assms unf show ?thesis by simp
  next
    case (Inr c2i2)
    then have g1: "fragments_of c2i2 = fragments_of c2i" by (rule write_joint_fragments)
    from assms unf Inr have
      "(if t (on2 x) = TMin (on_curve (on2 x))
          then write_joint (map_of p2i (Id (on_curve (on2 x)))) True
                 \<lparr>joint_on1 = point_of (map_of p2i (Id (on_curve (on2 x)))) (on2 x),
                   joint_on2 = point_of (map_of p2i (Id (on_curve (on1 x)))) (on1 x)\<rparr> c2i2
          else if t (on2 x) = TMax (on_curve (on2 x))
          then write_joint (map_of p2i (Id (on_curve (on2 x)))) False
                 \<lparr>joint_on1 = point_of (map_of p2i (Id (on_curve (on2 x)))) (on2 x),
                   joint_on2 = point_of (map_of p2i (Id (on_curve (on1 x)))) (on1 x)\<rparr> c2i2
          else Inr c2i2) = Inr c2i1"
      by simp
    then have "fragments_of c2i1 = fragments_of c2i2"
      by (auto split: if_splits intro: write_joint_fragments)
    with g1 show ?thesis by simp
  qed
qed

lemma bounded_crosses_fragments:
  assumes "bounded_crosses current p2i xs c2i = Inr (crosses, c2i1)"
  shows "fragments_of c2i1 = fragments_of c2i"
proof (cases "IsBounded current \<and> \<not> IsClosed current")
  case True
  with assms obtain c2i2 where a1: "addJoint (hd xs) p2i c2i = Inr c2i2"
    and a2: "addJoint (last xs) p2i c2i2 = Inr c2i1"
    by (auto simp: bounded_crosses_def split: sum.splits)
  from addJoint_fragments[OF a1] addJoint_fragments[OF a2] show ?thesis by simp
next
  case False
  with assms have "c2i1 = c2i" by (auto simp: bounded_crosses_def split: if_splits)
  then show ?thesis by simp
qed

lemma trim_loop_fragments:
  assumes "trim_loop k p2i owner c1 visited xs (s, trs, c2i, q) = Inr (s1, trs1, c2i1, q1)"
  shows "fragments_of c2i1 = fragments_of c2i"
  using assms
proof (induction xs arbitrary: s trs c2i q)
  case Nil
  then show ?case by simp
next
  case (Cons x xs)
  show ?case
  proof (cases "trim_step k p2i owner c1 visited x (s, trs, c2i, q)")
    case (Inl e)
    with Cons.prems show ?thesis by simp
  next
    case (Inr acc)
    obtain s2 trs2 c2i2 q2 where acc: "acc = (s2, trs2, c2i2, q2)" by (cases acc)
    from Inr[unfolded acc] obtain n where "touch owner n c2i = Inr c2i2"
      by (rule trim_step_cases) simp
    then have step: "fragments_of c2i2 = fragments_of c2i" by (rule touch_fragments)
    from Cons.prems Inr acc
    have "trim_loop k p2i owner c1 visited xs (s2, trs2, c2i2, q2) = Inr (s1, trs1, c2i1, q1)"
      by simp
    from Cons.IH[OF this] step show ?thesis by simp
  qed
qed

subsection \<open>Replacing the fragments of one curve\<close>

lemma split_cong:
  assumes "fragments_of c2i1 = fragments_of (curve2info d)"
  shows "store_inv (d\<lparr>curve2info := c2i1\<rparr>) = store_inv d"
    and "entry_split k (d\<lparr>curve2info := c2i1\<rparr>) v = entry_split k d v"
  by (simp_all add: store_inv_def entry_split_def owned_def assms)

lemma store_inv_owned:
  assumes "store_inv d" and "owned d w = Some fs" and "f \<in> set fs"
  shows "f \<notin> set (pending d)" and "f < next_simpleName (db d)"
    and "\<exists>it. map_of (items (db d)) f = Some it \<and> item_owner it = w"
proof -
  from assms show "f \<notin> set (pending d)"
    and it: "\<exists>it. map_of (items (db d)) f = Some it \<and> item_owner it = w"
    unfolding store_inv_def by blast+
  from it obtain it where "map_of (items (db d)) f = Some it" by blast
  moreover from assms(1) have "store_ok (db d)" by (simp add: store_inv_def)
  ultimately show "f < next_simpleName (db d)" by (rule store_ok_lookup[rotated])
qed

lemma updateCurve_split:
  assumes uc: "updateCurve v trims p d = Inr d1" and SI: "store_inv d"
  shows "store_inv d1"
    and "\<exists>fs. owned d1 v = Some fs \<and>
           records (db d1) fs = map (\<lambda>tr. Some (trimmed tr, start tr, stop tr, v)) trims"
    and "\<forall>w fs. w \<noteq> v \<longrightarrow> owned d w = Some fs \<longrightarrow>
           owned d1 w = Some fs \<and> records (db d1) fs = records (db d) fs"
proof -
  from uc obtain info views s where info: "map_of (curve2info d) v = Some info"
    and af: "add_fragments v p trims (db d) = (views, s)"
    and d1: "d1 = d\<lparr>curve2info := AList.update v (info\<lparr>fragments := views\<rparr>) (curve2info d),
                    db := s, pending := pending d @ fragments info\<rparr>"
    by (rule updateCurve_cases)
  from SI have ok0: "store_ok (db d)"
    and pend0: "\<forall>f \<in> set (pending d). f < next_simpleName (db d)"
    by (simp_all add: store_inv_def)
  from add_fragments_lookup[OF ok0 af] have ok: "store_ok s"
    and le: "next_simpleName (db d) \<le> next_simpleName s"
    and old: "\<forall>f < next_simpleName (db d). map_of (items s) f = map_of (items (db d)) f"
    and range: "\<forall>f \<in> set views. next_simpleName (db d) \<le> f \<and> f < next_simpleName s"
    and new: "map (map_of (items s)) views =
           map (\<lambda>tr. Some \<lparr>item_placement = p, item_piece = trimmed tr, item_start = start tr,
                            item_stop = stop tr, item_owner = v\<rparr>) trims"
    by simp_all
  have own0: "owned d v = Some (fragments info)" using info by (simp add: owned_lookup)
  have own1: "owned d1 w = (if w = v then Some views else owned d w)" for w
    by (simp add: owned_def d1 fragments_of_update update_conv')
  note in_store = store_inv_owned[OF SI]
  have kept: "map_of (items s) f = map_of (items (db d)) f"
    if "owned d w = Some fs" and "f \<in> set fs" for w fs f
    using old in_store(2)[OF that] by simp
  show others: "\<forall>w fs. w \<noteq> v \<longrightarrow> owned d w = Some fs \<longrightarrow>
           owned d1 w = Some fs \<and> records (db d1) fs = records (db d) fs"
  proof (intro allI impI conjI)
    fix w fs assume w: "w \<noteq> v" and fs: "owned d w = Some fs"
    from w fs show "owned d1 w = Some fs" by (simp add: own1)
    have "records s fs = records (db d) fs"
      by (rule records_cong) (simp add: kept[OF fs])
    then show "records (db d1) fs = records (db d) fs" by (simp add: d1)
  qed
  have "records s views = map (map_option provenance) (map (map_of (items s)) views)"
    by (simp add: records_def)
  also have "\<dots> = map (\<lambda>tr. Some (trimmed tr, start tr, stop tr, v)) trims"
    unfolding new by (simp add: provenance_def)
  finally have recs: "records s views = map (\<lambda>tr. Some (trimmed tr, start tr, stop tr, v)) trims" .
  show "\<exists>fs. owned d1 v = Some fs \<and>
           records (db d1) fs = map (\<lambda>tr. Some (trimmed tr, start tr, stop tr, v)) trims"
  proof (intro exI conjI)
    show "owned d1 v = Some views" by (simp add: own1)
    show "records (db d1) views = map (\<lambda>tr. Some (trimmed tr, start tr, stop tr, v)) trims"
      using recs by (simp add: d1)
  qed
  have new_items: "\<exists>it. map_of (items s) f = Some it \<and> item_owner it = v" if "f \<in> set views" for f
  proof -
    from that have "map_of (items s) f \<in> set (map (map_of (items s)) views)" by simp
    then show ?thesis unfolding new by auto
  qed
  show "store_inv d1"
    unfolding store_inv_def
  proof (intro conjI ballI allI impI)
    show "store_ok (db d1)" using ok by (simp add: d1)
  next
    fix f assume "f \<in> set (pending d1)"
    then have "f \<in> set (pending d) \<or> f \<in> set (fragments info)" by (simp add: d1)
    then have "f < next_simpleName (db d)"
      using pend0 in_store(2)[OF own0] by blast
    with le show "f < next_simpleName (db d1)" by (simp add: d1)
  next
    fix w fs f assume fs: "owned d1 w = Some fs" and f: "f \<in> set fs"
    show "f \<notin> set (pending d1)"
    proof (cases "w = v")
      case True
      with fs have "fs = views" by (simp add: own1)
      with f range have "next_simpleName (db d) \<le> f" by simp
      moreover have "g < next_simpleName (db d)" if "g \<in> set (pending d1)" for g
      proof -
        from that have "g \<in> set (pending d) \<or> g \<in> set (fragments info)" by (simp add: d1)
        then show ?thesis using pend0 in_store(2)[OF own0] by blast
      qed
      ultimately show ?thesis by fastforce
    next
      case False
      with fs have fs0: "owned d w = Some fs" by (simp add: own1)
      have "f \<notin> set (fragments info)"
      proof
        assume "f \<in> set (fragments info)"
        from in_store(3)[OF own0 this] in_store(3)[OF fs0 f] False show False by auto
      qed
      with in_store(1)[OF fs0 f] show ?thesis by (simp add: d1)
    qed
    show "\<exists>it. map_of (items (db d1)) f = Some it \<and> item_owner it = w"
    proof (cases "w = v")
      case True
      with fs have "fs = views" by (simp add: own1)
      with f new_items True show ?thesis by (simp add: d1)
    next
      case False
      with fs have fs0: "owned d w = Some fs" by (simp add: own1)
      from in_store(3)[OF fs0 f] kept[OF fs0 f] show ?thesis by (simp add: d1)
    qed
  qed
qed

subsection \<open>The trims of one curve\<close>

lemma bounded_crosses_params:
  assumes "bounded_crosses current p2i xs c2i = Inr (crosses, c2i1)" and "xs \<noteq> []"
  shows "map (\<lambda>x. t (on1 x)) crosses = cut_parameters current (map (\<lambda>x. t (on1 x)) xs)"
    and "crosses \<noteq> []"
proof -
  consider (open_curve) "IsBounded current \<and> \<not> IsClosed current"
    | (closed) "\<not> (IsBounded current \<and> \<not> IsClosed current)" "IsClosed current"
    | (unbounded) "\<not> (IsBounded current \<and> \<not> IsClosed current)" "\<not> IsClosed current"
    by blast
  then have "map (\<lambda>x. t (on1 x)) crosses = cut_parameters current (map (\<lambda>x. t (on1 x)) xs)
      \<and> crosses \<noteq> []"
  proof cases
    case open_curve
    with assms(1) have "crosses = self_cross (TMin current) current # xs
        @ [self_cross (TMax current) current]"
      by (auto simp: bounded_crosses_def split: sum.splits)
    with open_curve show ?thesis by (simp add: cut_parameters_def self_cross_def)
  next
    case closed
    with assms(1) have "crosses = xs @ [hd xs]" by (simp add: bounded_crosses_def)
    with closed assms(2) show ?thesis by (simp add: cut_parameters_def hd_map)
  next
    case unbounded
    with assms(1) have "crosses = xs" by (simp add: bounded_crosses_def)
    with unbounded assms(2) show ?thesis by (simp add: cut_parameters_def)
  qed
  then show "map (\<lambda>x. t (on1 x)) crosses = cut_parameters current (map (\<lambda>x. t (on1 x)) xs)"
    and "crosses \<noteq> []"
    by simp_all
qed

lemma split_curve_trims:
  assumes run: "split_curve k p p2i view current visited q d xs = Inr (q1, d1)"
    and ne: "xs \<noteq> []"
  obtains c2i1 where "fragments_of c2i1 = fragments_of (curve2info d)"
    "updateCurve view
       (map (\<lambda>(a, b). \<lparr>trimmed = Trimmed (on_curve (on1 (hd xs))) a b, start = a, stop = b\<rparr>)
          (spans k (cut_parameters current (map (\<lambda>x. t (on1 x)) xs))))
       p (d\<lparr>curve2info := c2i1\<rparr>) = Inr d1"
proof -
  from run obtain crosses c2i s1 trims c2i1 where
    bc: "bounded_crosses current p2i xs (curve2info d) = Inr (crosses, c2i)" and
    tl: "trim_loop k p2i (map_of p2i (Id (on_curve (on1 (hd xs))))) (on_curve (on1 (hd xs)))
           visited crosses (t (on1 (hd crosses)), [], c2i, q) = Inr (s1, trims, c2i1, q1)" and
    uc: "updateCurve view trims p (d\<lparr>curve2info := c2i1\<rparr>) = Inr d1"
    by (rule split_curve_cases)
  note ps = bounded_crosses_params[OF bc ne]
  let ?ws = "cut_parameters current (map (\<lambda>x. t (on1 x)) xs)"
  have first: "t (on1 (hd crosses)) = hd ?ws"
    unfolding ps(1)[symmetric] using ps(2) by (simp add: hd_map)
  from trim_loop_trims[OF tl] have
    "trims = map (\<lambda>(a, b). \<lparr>trimmed = Trimmed (on_curve (on1 (hd xs))) a b, start = a, stop = b\<rparr>)
               (spans k ?ws)"
    unfolding ps(1) first spans_def by simp
  with uc have "updateCurve view
       (map (\<lambda>(a, b). \<lparr>trimmed = Trimmed (on_curve (on1 (hd xs))) a b, start = a, stop = b\<rparr>)
          (spans k ?ws)) p (d\<lparr>curve2info := c2i1\<rparr>) = Inr d1"
    by simp
  moreover have "fragments_of c2i1 = fragments_of (curve2info d)"
    using trim_loop_fragments[OF tl] bounded_crosses_fragments[OF bc] by simp
  ultimately show thesis by (rule that[rotated])
qed

subsection \<open>One curve of the worklist is split\<close>

lemma process_curve_split:
  assumes K: "kernel_ok k X" and kn: "known k current" and cin: "current \<in> set all"
    and view: "map_of p2i (Id current) = Some view"
    and cv: "curve3d2curve2d k view = Some (current, pl)"
    and run: "process_curve k p p2i all view current visited q d = Inr (q1, d1)"
    and SI: "store_inv d"
  shows "store_inv d1" and "entry_split k d1 view"
    and "\<forall>w. w \<noteq> view \<longrightarrow> entry_split k d w \<longrightarrow> entry_split k d1 w"
proof -
  have "store_inv d1 \<and> entry_split k d1 view \<and>
        (\<forall>w. w \<noteq> view \<longrightarrow> entry_split k d w \<longrightarrow> entry_split k d1 w)"
    using run
  proof (cases rule: process_curve_cases)
    case whole
    note u = updateCurve_split[OF whole(2) SI]
    from u(2) obtain fs where fs: "owned d1 view = Some fs"
      and recs: "records (db d1) fs = [Some (Whole current, - 1, - 1, view)]"
      by auto
    have "cross_parameters k current all = []"
      using whole(1) by (simp add: cross_parameters_def)
    then have "records (db d1) fs = expected k view current (cross_parameters k current all)"
      using recs by (simp add: expected_def)
    with fs cv have split: "entry_split k d1 view" unfolding entry_split_def by blast
    have others: "entry_split k d1 w" if "w \<noteq> view" and "entry_split k d w" for w
    proof -
      from that(2) obtain fs c pl' all' where a: "owned d w = Some fs"
        and b: "curve3d2curve2d k w = Some (c, pl')"
        and c: "records (db d) fs = expected k w c (cross_parameters k c all')"
        unfolding entry_split_def by blast
      from u(3) that(1) a have "owned d1 w = Some fs" "records (db d1) fs = records (db d) fs"
        by blast+
      with b c show ?thesis unfolding entry_split_def by auto
    qed
    from u(1) split others show ?thesis by blast
  next
    case split
    let ?raw = "all_crosses k current all"
    let ?xs = "sort_key (\<lambda>c. t (on1 c)) ?raw"
    have sxs: "set ?xs = set ?raw" by (rule set_sort)
    have ne: "?xs \<noteq> []"
    proof
      assume "?xs = []"
      then have "set ?xs = {}" by (simp only: set_empty)
      then have "?raw = []" unfolding sxs by (simp only: set_empty)
      with split(1) show False by simp
    qed
    then have "hd ?xs \<in> set ?raw" unfolding sxs[symmetric] by (rule hd_in_set)
    with all_crosses_shape[OF K kn cin] have c1: "on_curve (on1 (hd ?xs)) = current" by simp
    from split(2) ne obtain c2i1 where
      same: "fragments_of c2i1 = fragments_of (curve2info d)" and
      uc: "updateCurve view
         (map (\<lambda>(a, b). \<lparr>trimmed = Trimmed (on_curve (on1 (hd ?xs))) a b, start = a, stop = b\<rparr>)
            (spans k (cut_parameters current (map (\<lambda>x. t (on1 x)) ?xs))))
         p (d\<lparr>curve2info := c2i1\<rparr>) = Inr d1"
      by (rule split_curve_trims)
    let ?d = "d\<lparr>curve2info := c2i1\<rparr>"
    from SI have SI': "store_inv ?d" by (simp only: split_cong(1)[OF same])
    note u = updateCurve_split[OF uc SI']
    have params: "map (\<lambda>x. t (on1 x)) ?xs = cross_parameters k current all"
      by (simp add: cross_parameters_def)
    have nets: "cross_parameters k current all \<noteq> []"
      using ne unfolding params[symmetric] by simp
    from u(2) obtain fs where fs: "owned d1 view = Some fs"
      and recs: "records (db d1) fs =
        map (\<lambda>tr. Some (trimmed tr, start tr, stop tr, view))
          (map (\<lambda>(a, b). \<lparr>trimmed = Trimmed current a b, start = a, stop = b\<rparr>)
             (spans k (cut_parameters current (cross_parameters k current all))))"
      unfolding c1 params by auto
    have "records (db d1) fs = expected k view current (cross_parameters k current all)"
      unfolding recs using nets by (simp add: expected_def comp_def case_prod_unfold)
    with fs cv have split1: "entry_split k d1 view" unfolding entry_split_def by blast
    have others: "entry_split k d1 w" if "w \<noteq> view" and "entry_split k d w" for w
    proof -
      from that(2) have "entry_split k ?d w" by (simp only: split_cong(2)[OF same])
      then obtain fs c pl' all' where a: "owned ?d w = Some fs"
        and b: "curve3d2curve2d k w = Some (c, pl')"
        and c: "records (db ?d) fs = expected k w c (cross_parameters k c all')"
        unfolding entry_split_def by blast
      from u(3) that(1) a have "owned d1 w = Some fs" "records (db d1) fs = records (db ?d) fs"
        by blast+
      with b c show ?thesis unfolding entry_split_def by auto
    qed
    from u(1) split1 others show ?thesis by blast
  qed
  then show "store_inv d1" and "entry_split k d1 view"
    and "\<forall>w. w \<noteq> view \<longrightarrow> entry_split k d w \<longrightarrow> entry_split k d1 w"
    by simp_all
qed

subsection \<open>The worklist splits every curve it holds\<close>

lemma add_loop_split:
  assumes "kernel_ok k X" and "\<forall>c \<in> set all. known k c"
    and "\<forall>c \<in> set all. \<exists>n pl. map_of p2i (Id c) = Some n \<and> curve3d2curve2d k n = Some (c, pl)"
    and "add_loop k p p2i all q visited d = Inr d1" and "queue_ok p2i all q"
    and "store_inv d"
    and "\<forall>v \<in> fst ` set (curve2info d).
           entry_split k d v \<or> (\<exists>c. (Id c, c) \<in> set q \<and> map_of p2i (Id c) = Some v)"
  shows "store_inv d1 \<and> (\<forall>v \<in> fst ` set (curve2info d1). entry_split k d1 v)"
  using assms
proof (induction k p p2i all q visited d rule: add_loop.induct)
  case (1 k p p2i all q visited d)
  note K = "1.prems"(1) and kn = "1.prems"(2) and own = "1.prems"(3) and run = "1.prems"(4)
    and Q = "1.prems"(5) and SI = "1.prems"(6) and inv = "1.prems"(7)
  show ?case
  proof (cases q)
    case Nil
    with run have "d1 = d" by (simp add: add_loop_Nil)
    with Nil SI inv show ?thesis by simp
  next
    case (Cons e rest)
    obtain i current where e: "e = (i, current)" by (cases e)
    from Q Cons e have i: "i = Id current" and cin: "current \<in> set all"
      unfolding queue_ok_def by auto
    from run[unfolded Cons e] obtain view q1 d2 where
      view: "map_of p2i i = Some view" and
      pc: "process_curve k p p2i all view current (set_add i visited)
             (AList.delete i ((i, current) # rest)) d = Inr (q1, d2)" and
      rec: "add_loop k p p2i all q1 (set_add i visited) d2 = Inr d1"
      by (rule add_loop_cases)
    have kc: "known k current" using kn cin by simp
    from own cin obtain n pl where "map_of p2i (Id current) = Some n"
      and "curve3d2curve2d k n = Some (current, pl)"
      by blast
    with view i have cv: "curve3d2curve2d k view = Some (current, pl)" by simp
    have Qd: "queue_ok p2i all (AList.delete i ((i, current) # rest))"
      using Q unfolding Cons e by (rule queue_ok_delete)
    note s = process_curve_split[OF K kc cin view[unfolded i] cv pc[unfolded i] SI]
    from process_curve_effect[OF K kc cin view[unfolded i] Qd[unfolded i] pc[unfolded i]]
    have g1: "grows (curve2info d) (curve2info d2)"
      and Q1: "queue_ok p2i all q1"
      and keys1: "fst ` set (AList.delete (Id current) ((Id current, current) # rest))
                    \<subseteq> fst ` set q1"
      by simp_all
    from g1 have "map fst (curve2info d2) = map fst (curve2info d)" by (simp add: grows_def)
    then have "set (map fst (curve2info d2)) = set (map fst (curve2info d))" by simp
    then have keys: "fst ` set (curve2info d2) = fst ` set (curve2info d)" by simp
    have pc': "process_curve k p p2i all view current (set_add i visited)
             (AList.delete i q) d = Inr (q1, d2)"
      using pc unfolding Cons e .
    have inv2: "\<forall>v \<in> fst ` set (curve2info d2).
           entry_split k d2 v \<or> (\<exists>c. (Id c, c) \<in> set q1 \<and> map_of p2i (Id c) = Some v)"
    proof
      fix v assume "v \<in> fst ` set (curve2info d2)"
      then have reg: "v \<in> fst ` set (curve2info d)" unfolding keys .
      show "entry_split k d2 v \<or> (\<exists>c. (Id c, c) \<in> set q1 \<and> map_of p2i (Id c) = Some v)"
      proof (cases "v = view")
        case True
        with s(2) show ?thesis by simp
      next
        case False
        from inv reg have "entry_split k d v \<or>
            (\<exists>c. (Id c, c) \<in> set q \<and> map_of p2i (Id c) = Some v)"
          by (rule bspec)
        then show ?thesis
        proof
          assume "entry_split k d v"
          with s(3) False show ?thesis by blast
        next
          assume "\<exists>c. (Id c, c) \<in> set q \<and> map_of p2i (Id c) = Some v"
          then obtain c where cq: "(Id c, c) \<in> set q" and cv': "map_of p2i (Id c) = Some v"
            by blast
          from Q cq have c_all: "c \<in> set all" unfolding queue_ok_def by auto
          have ne: "Id c \<noteq> i"
          proof
            assume "Id c = i"
            with cv' view have "v = view" by simp
            with False show False by simp
          qed
          with cq have "Id c \<in> fst ` set (AList.delete i q)"
            unfolding keys_delete by (auto intro: rev_image_eqI)
          with keys1 have "Id c \<in> fst ` set q1" unfolding Cons e i by blast
          then obtain c' where c': "(Id c, c') \<in> set q1" by auto
          with Q1 have "Id c = Id c'" and "c' \<in> set all" unfolding queue_ok_def by auto
          with c_all kn K have "c' = c" by (intro known_inj[of k X]) simp_all
          with c' cv' show ?thesis by blast
        qed
      qed
    qed
    from "1.IH"[OF Cons e[symmetric] view pc' refl K kn own rec Q1 s(1) inv2]
    show ?thesis .
  qed
qed

subsection \<open>One add\<close>

lemma collect_members:
  assumes "collect k p id2pc entries (p2i0, all0) = Inr (p2i, all)"
  shows "\<forall>c \<in> set all. c \<in> set all0 \<or>
           (\<exists>(n, info) \<in> set entries. map_of id2pc (planarCurve info) = Some c)"
  using assms
proof (induction entries arbitrary: p2i0 all0)
  case Nil
  then show ?case by simp
next
  case (Cons e entries)
  obtain n info where e: "e = (n, info)" by (cases e)
  from Cons.prems e obtain c0 where look: "map_of id2pc (planarCurve info) = Some c0"
    by (cases "map_of id2pc (planarCurve info)") simp_all
  let ?p2 = "AList.update (Id c0) n p2i0"
  let ?al = "if isSamePlacement k p (placement info) then all0 @ [c0] else all0"
  from Cons.prems e look have "collect k p id2pc entries (?p2, ?al) = Inr (p2i, all)"
    by simp
  from Cons.IH[OF this] have ih: "\<forall>c \<in> set all. c \<in> set ?al \<or>
           (\<exists>(n, info) \<in> set entries. map_of id2pc (planarCurve info) = Some c)" .
  show ?case
  proof
    fix c assume "c \<in> set all"
    with ih have "c \<in> set ?al \<or>
        (\<exists>(n, info) \<in> set entries. map_of id2pc (planarCurve info) = Some c)"
      by (rule bspec)
    then show "c \<in> set all0 \<or>
           (\<exists>(n, info) \<in> set (e # entries). map_of id2pc (planarCurve info) = Some c)"
      using look e by (auto split: if_splits)
  qed
qed

lemma add_split:
  assumes K: "kernel_ok k X" and R: "registry_ok k d"
    and fresh: "N \<notin> fst ` set (curve2info d)" and run: "add k N d = Inr d1"
    and SI: "store_inv d" and inv: "\<forall>v \<in> fst ` set (curve2info d). entry_split k d v"
  shows "store_inv d1 \<and> (\<forall>v \<in> fst ` set (curve2info d1). entry_split k d1 v)"
proof (cases "curve3d2curve2d k N")
  case None
  with run have "d1 = d" by (simp add: add_not_planar)
  with SI inv show ?thesis by simp
next
  case (Some r)
  obtain cN pl where r: "r = (cN, pl)" by (cases r)
  note cN = Some[unfolded r]
  let ?c2i = "curve2info d"
  from cN run obtain pN ps p2i0 all0 where
    col: "collect k pN (id2planarCurve d) ?c2i ([], []) = Inr (p2i0, all0)" and
    loop: "add_loop k pN (AList.update (Id cN) N p2i0) (all0 @ [cN]) [(Id cN, cN)] []
       (d\<lparr>placements := ps, counter := Suc (counter d),
          id2planarCurve := AList.update (counter d) cN (id2planarCurve d),
          curve2info := AList.update N (new_CurveInfo (counter d) pN) ?c2i\<rparr>) = Inr d1"
    by (rule add_unfold)
  let ?p2i = "AList.update (Id cN) N p2i0"
  let ?all = "all0 @ [cN]"
  let ?dreg = "d\<lparr>placements := ps, counter := Suc (counter d),
          id2planarCurve := AList.update (counter d) cN (id2planarCurve d),
          curve2info := AList.update N (new_CurveInfo (counter d) pN) ?c2i\<rparr>"
  have entries: "\<forall>(n, info) \<in> set ?c2i.
      \<exists>c pl. curve3d2curve2d k n = Some (c, pl) \<and>
             map_of (id2planarCurve d) (planarCurve info) = Some c"
    using R unfolding registry_ok_def by blast
  note ce = collect_effect[OF K col entries]
  note cm = collect_members[OF col]
  have kN: "known k cN" using cN unfolding known_def by blast
  have known_all: "\<forall>c \<in> set ?all. known k c" using ce kN by auto
  have new_p2i: "map_of ?p2i (Id cN) = Some N" by (simp add: update_conv')
  have own: "\<forall>c \<in> set ?all. \<exists>n pl. map_of ?p2i (Id c) = Some n \<and>
      curve3d2curve2d k n = Some (c, pl)"
  proof
    fix c assume "c \<in> set ?all"
    then consider "c = cN" | "c \<in> set all0" by auto
    then show "\<exists>n pl. map_of ?p2i (Id c) = Some n \<and> curve3d2curve2d k n = Some (c, pl)"
    proof cases
      case 1
      with new_p2i cN show ?thesis by blast
    next
      case 2
      with cm obtain n info where mem: "(n, info) \<in> set ?c2i"
        and look: "map_of (id2planarCurve d) (planarCurve info) = Some c"
        by auto
      from entries mem obtain c' pl' where c': "curve3d2curve2d k n = Some (c', pl')"
        and "map_of (id2planarCurve d) (planarCurve info) = Some c'"
        by blast
      with look have same: "c' = c" by simp
      from mem fresh have "n \<noteq> N" by (auto intro: rev_image_eqI)
      with kernel_ok_inj[OF K c' cN] have "Id c' \<noteq> Id cN" by blast
      moreover from ce mem c' have "map_of p2i0 (Id c') = Some n" by blast
      ultimately have "map_of ?p2i (Id c') = Some n" by (simp add: update_conv')
      with c' same show ?thesis by blast
    qed
  qed
  have Q0: "queue_ok ?p2i ?all [(Id cN, cN)]"
    by (simp add: queue_ok_def AList.dom_update)
  have own_reg: "owned ?dreg w = (if w = N then Some [] else owned d w)" for w
    by (simp add: owned_def fragments_of_update update_conv' new_CurveInfo_def)
  have SI0: "store_inv ?dreg"
    using SI unfolding store_inv_def own_reg by (auto split: if_splits)
  have split_reg: "entry_split k ?dreg v" if "v \<noteq> N" and "entry_split k d v" for v
    using that unfolding entry_split_def own_reg by simp
  have keys_reg: "fst ` set (curve2info ?dreg) = insert N (fst ` set ?c2i)"
    by (simp add: AList.dom_update)
  have inv0: "\<forall>v \<in> fst ` set (curve2info ?dreg).
           entry_split k ?dreg v \<or>
           (\<exists>c. (Id c, c) \<in> set [(Id cN, cN)] \<and> map_of ?p2i (Id c) = Some v)"
  proof
    fix v assume "v \<in> fst ` set (curve2info ?dreg)"
    then have "v = N \<or> v \<in> fst ` set ?c2i" unfolding keys_reg by simp
    then show "entry_split k ?dreg v \<or>
           (\<exists>c. (Id c, c) \<in> set [(Id cN, cN)] \<and> map_of ?p2i (Id c) = Some v)"
    proof (cases "v = N")
      case True
      with new_p2i show ?thesis by auto
    next
      case False
      assume "v = N \<or> v \<in> fst ` set ?c2i"
      with False have "v \<in> fst ` set ?c2i" by simp
      with inv have "entry_split k d v" by (rule bspec)
      with False show ?thesis by (simp add: split_reg)
    qed
  qed
  from add_loop_split[OF K known_all own loop Q0 SI0 inv0] show ?thesis .
qed

subsection \<open>At rest\<close>

lemma settle_split:
  assumes SI: "store_inv d"
  shows "store_inv (settle d)"
    and "entry_split k d v \<Longrightarrow> entry_split k (settle d) v"
proof -
  have own: "owned (settle d) = owned d" by (simp add: owned_def)
  have kept: "map_of (items (db (settle d))) f = map_of (items (db d)) f"
    if "owned d w = Some fs" and "f \<in> set fs" for w fs f
    using store_inv_owned(1)[OF SI that] by (simp add: settle_def fold_removeItem_lookup)
  from SI have "store_ok (db d)" by (simp add: store_inv_def)
  with settle_items[of d] have ok: "store_ok (db (settle d))"
    by (auto simp: store_ok_def settle_def)
  show "store_inv (settle d)"
    unfolding store_inv_def own
  proof (intro conjI ballI allI impI)
    show "store_ok (db (settle d))" by (rule ok)
  next
    fix f assume "f \<in> set (pending (settle d))"
    then show "f < next_simpleName (db (settle d))" by simp
  next
    fix w fs f assume fs: "owned d w = Some fs" and f: "f \<in> set fs"
    show "f \<notin> set (pending (settle d))" by simp
    from store_inv_owned(3)[OF SI fs f] kept[OF fs f]
    show "\<exists>it. map_of (items (db (settle d))) f = Some it \<and> item_owner it = w" by simp
  qed
  assume "entry_split k d v"
  then obtain fs c pl all where a: "owned d v = Some fs"
    and b: "curve3d2curve2d k v = Some (c, pl)"
    and c: "records (db d) fs = expected k v c (cross_parameters k c all)"
    unfolding entry_split_def by blast
  have "records (db (settle d)) fs = records (db d) fs"
    by (rule records_cong) (simp add: kept[OF a])
  with a b c show "entry_split k (settle d) v"
    unfolding entry_split_def own by auto
qed

subsection \<open>Teardown, commit and remove\<close>

lemma fragments_of_delete:
  "fragments_of (AList.delete n c2i) = AList.delete n (fragments_of c2i)"
  by (induction c2i) (auto simp: fragments_of_def)

lemma removeInfo_keys:
  "fst ` set (curve2info (snd (removeInfo c d))) = fst ` set (curve2info d) - {c}"
proof (cases "map_of (curve2info d) c")
  case None
  then have "c \<notin> fst ` set (curve2info d)" by (simp add: map_of_eq_None_iff)
  with None show ?thesis by (simp add: removeInfo_def)
next
  case (Some info)
  then show ?thesis by (simp add: removeInfo_def keys_delete)
qed

lemma removeInfo_split:
  assumes SI: "store_inv d"
  shows "store_inv (snd (removeInfo c d))"
    and "w \<noteq> c \<Longrightarrow> entry_split k d w \<Longrightarrow> entry_split k (snd (removeInfo c d)) w"
proof -
  have "store_inv (snd (removeInfo c d)) \<and>
        (w \<noteq> c \<longrightarrow> entry_split k d w \<longrightarrow> entry_split k (snd (removeInfo c d)) w)"
  proof (cases "map_of (curve2info d) c")
    case None
    with SI show ?thesis by (simp add: removeInfo_def)
  next
    case (Some info)
    let ?d = "d\<lparr>curve2info := AList.delete c (curve2info d),
                pending := pending d @ fragments info\<rparr>"
    from Some have d1: "snd (removeInfo c d) = ?d" by (simp add: removeInfo_def)
    have own0: "owned d c = Some (fragments info)" using Some by (simp add: owned_lookup)
    have own1: "owned ?d v = (if v = c then None else owned d v)" for v
      by (simp add: owned_def fragments_of_delete delete_conv')
    note in_store = store_inv_owned[OF SI]
    from SI have ok: "store_ok (db d)"
      and pend0: "\<forall>f \<in> set (pending d). f < next_simpleName (db d)"
      by (simp_all add: store_inv_def)
    have "store_inv ?d"
      unfolding store_inv_def
    proof (intro conjI ballI allI impI)
      show "store_ok (db ?d)" using ok by simp
    next
      fix f assume "f \<in> set (pending ?d)"
      then have "f \<in> set (pending d) \<or> f \<in> set (fragments info)" by simp
      then show "f < next_simpleName (db ?d)"
        using pend0 in_store(2)[OF own0] by auto
    next
      fix v fs f assume fs: "owned ?d v = Some fs" and f: "f \<in> set fs"
      from fs have vc: "v \<noteq> c" and fs0: "owned d v = Some fs"
        by (simp_all add: own1 split: if_splits)
      have "f \<notin> set (fragments info)"
      proof
        assume "f \<in> set (fragments info)"
        from in_store(3)[OF own0 this] in_store(3)[OF fs0 f] vc show False by auto
      qed
      with in_store(1)[OF fs0 f] show "f \<notin> set (pending ?d)" by simp
      from in_store(3)[OF fs0 f]
      show "\<exists>it. map_of (items (db ?d)) f = Some it \<and> item_owner it = v" by simp
    qed
    moreover have "entry_split k ?d w" if "w \<noteq> c" and "entry_split k d w"
      using that unfolding entry_split_def own1 by simp
    ultimately show ?thesis unfolding d1 by blast
  qed
  then show "store_inv (snd (removeInfo c d))"
    and "w \<noteq> c \<Longrightarrow> entry_split k d w \<Longrightarrow> entry_split k (snd (removeInfo c d)) w"
    by simp_all
qed

lemma removeInfo_registry_ok:
  assumes "registry_ok k d" and "touch_complete k X (curve2info d)"
  shows "registry_ok k (snd (removeInfo c d))"
    and "touch_complete k X (curve2info (snd (removeInfo c d)))"
proof -
  have look: "map_of (curve2info (snd (removeInfo c d))) a = Some ia
      \<Longrightarrow> map_of (curve2info d) a = Some ia" for a ia
    by (simp add: removeInfo_registry split: if_splits)
  have sub: "set (curve2info (snd (removeInfo c d))) \<subseteq> set (curve2info d)"
    by (cases "map_of (curve2info d) c") (auto simp: removeInfo_def AList.delete_eq)
  have dist: "distinct (map fst (curve2info (snd (removeInfo c d))))"
    using assms(1)
    by (cases "map_of (curve2info d) c") (simp_all add: removeInfo_def registry_ok_def distinct_delete)
  have same: "counter (snd (removeInfo c d)) = counter d"
    "id2planarCurve (snd (removeInfo c d)) = id2planarCurve d"
    by (cases "map_of (curve2info d) c"; simp add: removeInfo_def)+
  show "registry_ok k (snd (removeInfo c d))"
    using assms(1) dist sub unfolding registry_ok_def same by blast
  show "touch_complete k X (curve2info (snd (removeInfo c d)))"
    unfolding touch_complete_def
  proof (intro allI impI, elim conjE)
    fix a ia b ib ca pa cb pb
    assume "map_of (curve2info (snd (removeInfo c d))) a = Some ia"
      and "map_of (curve2info (snd (removeInfo c d))) b = Some ib"
      and rest: "a \<noteq> b" "isSamePlacement k (placement ia) (placement ib)"
        "curve3d2curve2d k a = Some (ca, pa)" "curve3d2curve2d k b = Some (cb, pb)" "X ca cb"
    then have "map_of (curve2info d) a = Some ia" "map_of (curve2info d) b = Some ib"
      by (simp_all add: look)
    with assms(2) rest show "b \<in> set (touched ia)" unfolding touch_complete_def by blast
  qed
qed

lemma teardown_all_split:
  assumes "registry_ok k d" and "touch_complete k X (curve2info d)" and "store_inv d"
    and "\<forall>v \<in> fst ` set (curve2info d). entry_split k d v"
  shows "registry_ok k (teardown_all xs d) \<and>
         touch_complete k X (curve2info (teardown_all xs d)) \<and>
         store_inv (teardown_all xs d) \<and>
         fst ` set (curve2info (teardown_all xs d)) = fst ` set (curve2info d) - set xs \<and>
         (\<forall>v \<in> fst ` set (curve2info (teardown_all xs d)). entry_split k (teardown_all xs d) v)"
  using assms
proof (induction xs arbitrary: d)
  case Nil
  then show ?case by (simp add: teardown_all_def)
next
  case (Cons x xs)
  let ?d = "snd (removeInfo x d)"
  note r = removeInfo_registry_ok[OF Cons.prems(1,2), where c = x]
  note s = removeInfo_split[OF Cons.prems(3), where c = x]
  have keys: "fst ` set (curve2info ?d) = fst ` set (curve2info d) - {x}"
    by (rule removeInfo_keys)
  have inv: "\<forall>v \<in> fst ` set (curve2info ?d). entry_split k ?d v"
  proof
    fix v assume "v \<in> fst ` set (curve2info ?d)"
    then have "v \<noteq> x" and "v \<in> fst ` set (curve2info d)" unfolding keys by simp_all
    with Cons.prems(4) s(2) show "entry_split k ?d v" by blast
  qed
  from Cons.IH[OF r s(1) inv] have
    R: "registry_ok k (teardown_all xs ?d)"
    and T: "touch_complete k X (curve2info (teardown_all xs ?d))"
    and SI: "store_inv (teardown_all xs ?d)"
    and keys2: "fst ` set (curve2info (teardown_all xs ?d)) = fst ` set (curve2info ?d) - set xs"
    and inv2: "\<forall>v \<in> fst ` set (curve2info (teardown_all xs ?d)).
                 entry_split k (teardown_all xs ?d) v"
    by blast+
  have "fst ` set (curve2info (teardown_all xs ?d)) = fst ` set (curve2info d) - set (x # xs)"
    unfolding keys2 keys by auto
  with R T SI inv2 show ?case unfolding teardown_all_Cons by (intro conjI)
qed

lemma add_each_split:
  assumes K: "kernel_ok k X"
    and "registry_ok k d" and "touch_complete k X (curve2info d)"
    and "distinct ns" and "set ns \<inter> fst ` set (curve2info d) = {}"
    and "store_inv d"
    and "\<forall>v \<in> fst ` set (curve2info d). entry_split k d v"
    and "add_each k ns d = Inr d1"
  shows "registry_ok k d1 \<and> touch_complete k X (curve2info d1) \<and> store_inv d1 \<and>
         fst ` set (curve2info d1) \<subseteq> fst ` set (curve2info d) \<union> set ns \<and>
         (\<forall>v \<in> fst ` set (curve2info d1). entry_split k d1 v)"
  using assms(2-)
proof (induction ns arbitrary: d)
  case Nil
  then show ?case by simp
next
  case (Cons N ns)
  from Cons.prems(7) obtain d2 where
    step: "add k N d = Inr d2" and rest: "add_each k ns d2 = Inr d1"
    by (auto split: sum.splits)
  from Cons.prems(4) have fresh: "N \<notin> fst ` set (curve2info d)" by simp
  from add_preserves[OF K Cons.prems(1,2) fresh step]
  have R: "registry_ok k d2" and T: "touch_complete k X (curve2info d2)"
    and keys: "fst ` set (curve2info d2) \<subseteq> insert N (fst ` set (curve2info d))"
    by simp_all
  from add_split[OF K Cons.prems(1) fresh step Cons.prems(5,6)]
  have SI: "store_inv d2" and inv: "\<forall>v \<in> fst ` set (curve2info d2). entry_split k d2 v"
    by simp_all
  from Cons.prems(3) have dist: "distinct ns" and "N \<notin> set ns" by simp_all
  with Cons.prems(4) keys have disj: "set ns \<inter> fst ` set (curve2info d2) = {}" by auto
  from Cons.IH[OF R T dist disj SI inv rest] have
    R1: "registry_ok k d1" and T1: "touch_complete k X (curve2info d1)"
    and SI1: "store_inv d1"
    and keys1: "fst ` set (curve2info d1) \<subseteq> fst ` set (curve2info d2) \<union> set ns"
    and inv1: "\<forall>v \<in> fst ` set (curve2info d1). entry_split k d1 v"
    by blast+
  from keys1 keys have "fst ` set (curve2info d1) \<subseteq> fst ` set (curve2info d) \<union> set (N # ns)"
    by (simp add: subset_iff) blast
  with R1 T1 SI1 inv1 show ?case by (intro conjI)
qed

text \<open>The registries a caller finds at rest: the registry fits the kernel, the store
  fits the registry, no callback is left, and every registered curve is split.\<close>

lemma commit_split:
  assumes K: "kernel_ok k X"
    and R: "registry_ok k d" and T: "touch_complete k X (curve2info d)"
    and SI: "store_inv d" and inv: "\<forall>v \<in> fst ` set (curve2info d). entry_split k d v"
    and dd: "distinct (dirty data)" and added: "added data = []"
    and run: "commit k data d = Inr d1"
  shows "registry_ok k d1 \<and> touch_complete k X (curve2info d1) \<and> store_inv d1 \<and>
         pending d1 = [] \<and> fst ` set (curve2info d1) \<subseteq> fst ` set (curve2info d) \<union> set (dirty data) \<and>
         (\<forall>v \<in> fst ` set (curve2info d1). entry_split k d1 v)"
proof -
  let ?down = "teardown_all (dirty data @ [x \<leftarrow> deleted data. x \<notin> set (dirty data)]) d"
  let ?adds = "[x \<leftarrow> dirty data. x \<notin> set (deleted data)]"
  have "commit k data d =
     (case add_each k ?adds ?down of Inl e \<Rightarrow> Inl e | Inr d2 \<Rightarrow> Inr (settle d2))"
    by (simp add: commit_def teardown_dirty_eq teardown_deleted_eq readd_dirty_eq
        readd_added_eq added teardown_all_append split: sum.splits)
  with run obtain d2 where adds: "add_each k ?adds ?down = Inr d2" and d1: "d1 = settle d2"
    by (auto split: sum.splits)
  from teardown_all_split[OF R T SI inv] have
    R1: "registry_ok k ?down" and T1: "touch_complete k X (curve2info ?down)"
    and SI1: "store_inv ?down"
    and keys1: "fst ` set (curve2info ?down) = fst ` set (curve2info d)
        - set (dirty data @ [x \<leftarrow> deleted data. x \<notin> set (dirty data)])"
    and inv1: "\<forall>v \<in> fst ` set (curve2info ?down). entry_split k ?down v"
    by blast+
  have dist: "distinct ?adds" using dd by simp
  have disj: "set ?adds \<inter> fst ` set (curve2info ?down) = {}" unfolding keys1 by auto
  from add_each_split[OF K R1 T1 dist disj SI1 inv1 adds] have
    R2: "registry_ok k d2" and T2: "touch_complete k X (curve2info d2)"
    and SI2: "store_inv d2"
    and keys2: "fst ` set (curve2info d2) \<subseteq> fst ` set (curve2info ?down) \<union> set ?adds"
    and inv2: "\<forall>v \<in> fst ` set (curve2info d2). entry_split k d2 v"
    by blast+
  have "set ?adds \<subseteq> set (dirty data)" by auto
  with keys2 have k3: "fst ` set (curve2info d1) \<subseteq> fst ` set (curve2info d) \<union> set (dirty data)"
    unfolding keys1 d1 settle_registry by blast
  have i3: "\<forall>v \<in> fst ` set (curve2info d1). entry_split k d1 v"
    using inv2 settle_split(2)[OF SI2] unfolding d1 by simp
  have s3: "store_inv d1" unfolding d1 using SI2 by (rule settle_split(1))
  have r3: "registry_ok k d1" "touch_complete k X (curve2info d1)" "pending d1 = []"
    using R2 T2 by (simp_all add: d1)
  from r3 s3 k3 i3 show ?thesis by (intro conjI)
qed

lemma cascade_walk_registered:
  "cascade_walk c2i walk visited = Inr r \<Longrightarrow> set visited \<subseteq> fst ` set c2i
     \<Longrightarrow> set r \<subseteq> fst ` set c2i"
proof (induction c2i walk visited rule: cascade_walk.induct)
  case (1 c2i walk visited)
  show ?case
  proof (cases "walk = []")
    case True
    with "1.prems" show ?thesis by (simp add: cascade_walk_Nil)
  next
    case ne: False
    show ?thesis
    proof (cases "last walk \<in> set visited")
      case True
      with ne "1.prems" "1.IH"(1)[OF ne refl refl True] show ?thesis
        by (simp add: cascade_walk_seen)
    next
      case nv: False
      show ?thesis
      proof (cases "map_of c2i (last walk)")
        case None
        with ne nv "1.prems" show ?thesis by (simp add: cascade_walk_missing)
      next
        case (Some info)
        then have "last walk \<in> fst ` set c2i"
          by (metis map_of_eq_None_iff option.distinct(1))
        then have "set (set_add (last walk) visited) \<subseteq> fst ` set c2i"
          using "1.prems"(2) by (simp add: set_add_def)
        with ne nv Some "1.prems" "1.IH"(2)[OF ne refl refl nv Some] show ?thesis
          by (simp add: cascade_walk_expand)
      qed
    qed
  qed
qed

lemma cascade_shape:
  assumes "cascade d c new_Transaction = Inr data"
  shows "distinct (dirty data)" and "added data = []"
    and "set (dirty data) \<subseteq> fst ` set (curve2info d)"
proof -
  have "distinct (dirty data) \<and> added data = [] \<and>
        set (dirty data) \<subseteq> fst ` set (curve2info d)"
  proof (cases "map_of (curve2info d) c")
    case None
    with assms show ?thesis by (auto simp: cascade_def new_Transaction_def Let_def)
  next
    case (Some info)
    with assms obtain visited where w: "cascade_walk (curve2info d) (touched info) [] = Inr visited"
      and data: "data = \<lparr>dirty = visited, deleted = set_add c [], added = []\<rparr>"
      by (auto simp: cascade_def new_Transaction_def Let_def split: sum.splits)
    from cascade_walk_distinct[OF w] have "distinct visited" by simp
    moreover from cascade_walk_registered[OF w] have "set visited \<subseteq> fst ` set (curve2info d)"
      by simp
    ultimately show ?thesis by (simp add: data)
  qed
  then show "distinct (dirty data)" and "added data = []"
    and "set (dirty data) \<subseteq> fst ` set (curve2info d)"
    by simp_all
qed

lemma remove_split:
  assumes K: "kernel_ok k X"
    and R: "registry_ok k d" and T: "touch_complete k X (curve2info d)"
    and SI: "store_inv d" and inv: "\<forall>v \<in> fst ` set (curve2info d). entry_split k d v"
    and run: "remove k c d = Inr d1"
  shows "registry_ok k d1 \<and> touch_complete k X (curve2info d1) \<and> store_inv d1 \<and>
         pending d1 = [] \<and> fst ` set (curve2info d1) \<subseteq> fst ` set (curve2info d) \<and>
         (\<forall>v \<in> fst ` set (curve2info d1). entry_split k d1 v)"
proof -
  from run obtain data where cas: "cascade d c new_Transaction = Inr data"
    and com: "commit k data d = Inr d1"
    by (auto simp: remove_def split: sum.splits)
  note sh = cascade_shape[OF cas]
  from commit_split[OF K R T SI inv sh(1,2) com] have
    a: "registry_ok k d1" "touch_complete k X (curve2info d1)" "store_inv d1" "pending d1 = []"
    and keys: "fst ` set (curve2info d1) \<subseteq> fst ` set (curve2info d) \<union> set (dirty data)"
    and i: "\<forall>v \<in> fst ` set (curve2info d1). entry_split k d1 v"
    by blast+
  from keys sh(3) have "fst ` set (curve2info d1) \<subseteq> fst ` set (curve2info d)" by blast
  with a i show ?thesis by (intro conjI)
qed

subsection \<open>Any sequence of awaited calls\<close>

lemma perform_split:
  assumes K: "kernel_ok k X"
    and R: "registry_ok k d" and T: "touch_complete k X (curve2info d)"
    and SI: "store_inv d" and inv: "\<forall>v \<in> fst ` set (curve2info d). entry_split k d v"
    and fresh: "set (added_curves [x]) \<inter> fst ` set (curve2info d) = {}"
    and run: "perform k x d = Inr d1"
  shows "registry_ok k d1 \<and> touch_complete k X (curve2info d1) \<and> store_inv d1 \<and>
         pending d1 = [] \<and>
         fst ` set (curve2info d1) \<subseteq> fst ` set (curve2info d) \<union> set (added_curves [x]) \<and>
         (\<forall>v \<in> fst ` set (curve2info d1). entry_split k d1 v)"
proof (cases x)
  case (Add N)
  with run obtain d2 where step: "add k N d = Inr d2" and d1: "d1 = settle d2"
    by (auto split: sum.splits)
  from fresh Add have fr: "N \<notin> fst ` set (curve2info d)" by simp
  from add_preserves[OF K R T fr step]
  have a: "registry_ok k d1" "touch_complete k X (curve2info d1)" "pending d1 = []"
    and keys: "fst ` set (curve2info d1) \<subseteq> insert N (fst ` set (curve2info d))"
    by (simp_all add: d1)
  from add_split[OF K R fr step SI inv]
  have SI2: "store_inv d2" and inv2: "\<forall>v \<in> fst ` set (curve2info d2). entry_split k d2 v"
    by simp_all
  have s: "store_inv d1" unfolding d1 using SI2 by (rule settle_split(1))
  have i: "\<forall>v \<in> fst ` set (curve2info d1). entry_split k d1 v"
    unfolding d1 using inv2 settle_split(2)[OF SI2] by simp
  from keys Add
  have "fst ` set (curve2info d1) \<subseteq> fst ` set (curve2info d) \<union> set (added_curves [x])"
    by (simp add: subset_iff)
  with a s i show ?thesis by (intro conjI)
next
  case (Remove c)
  with run have "remove k c d = Inr d1" by simp
  from remove_split[OF K R T SI inv this] have
    a: "registry_ok k d1" "touch_complete k X (curve2info d1)" "store_inv d1" "pending d1 = []"
    and keys: "fst ` set (curve2info d1) \<subseteq> fst ` set (curve2info d)"
    and i: "\<forall>v \<in> fst ` set (curve2info d1). entry_split k d1 v"
    by blast+
  from keys
  have "fst ` set (curve2info d1) \<subseteq> fst ` set (curve2info d) \<union> set (added_curves [x])"
    by blast
  with a i show ?thesis by (intro conjI)
qed

lemma run_split:
  assumes K: "kernel_ok k X"
    and "registry_ok k d" and "touch_complete k X (curve2info d)"
    and "store_inv d" and "pending d = []"
    and "\<forall>v \<in> fst ` set (curve2info d). entry_split k d v"
    and "distinct (added_curves xs)"
    and "set (added_curves xs) \<inter> fst ` set (curve2info d) = {}"
    and "run k xs d = Inr d1"
  shows "store_inv d1 \<and> pending d1 = [] \<and> (\<forall>v \<in> fst ` set (curve2info d1). entry_split k d1 v)"
  using assms(2-)
proof (induction xs arbitrary: d)
  case Nil
  then show ?case by simp
next
  case (Cons x xs)
  from Cons.prems(8) obtain d2 where step: "perform k x d = Inr d2"
    and rest: "run k xs d2 = Inr d1"
    by (auto split: sum.splits)
  have split: "added_curves (x # xs) = added_curves [x] @ added_curves xs"
    by (cases x) simp_all
  from Cons.prems(7) have fresh: "set (added_curves [x]) \<inter> fst ` set (curve2info d) = {}"
    unfolding split by auto
  from perform_split[OF K Cons.prems(1,2,3,5) fresh step] have
    R: "registry_ok k d2" and T: "touch_complete k X (curve2info d2)"
    and SI: "store_inv d2" and P: "pending d2 = []"
    and keys: "fst ` set (curve2info d2) \<subseteq> fst ` set (curve2info d) \<union> set (added_curves [x])"
    and inv: "\<forall>v \<in> fst ` set (curve2info d2). entry_split k d2 v"
    by blast+
  from Cons.prems(6) have dist: "distinct (added_curves xs)"
    and apart: "set (added_curves [x]) \<inter> set (added_curves xs) = {}"
    unfolding split by simp_all
  from Cons.prems(7) have "set (added_curves xs) \<inter> fst ` set (curve2info d) = {}"
    unfolding split by auto
  with keys apart have disj: "set (added_curves xs) \<inter> fst ` set (curve2info d2) = {}"
    by blast
  from Cons.IH[OF R T SI P inv dist disj rest] show ?case .
qed

subsection \<open>Consecutive elements of a sorted list\<close>

lemma sorted_pairs_bounds:
  assumes "sorted ws" and "(a, b) \<in> set (zip ws (tl ws))"
  shows "hd ws \<le> a \<and> a \<le> b \<and> b \<le> last ws"
  using assms
proof (induction ws)
  case Nil
  then show ?case by simp
next
  case (Cons w ws)
  show ?case
  proof (cases ws)
    case Nil
    with Cons.prems show ?thesis by simp
  next
    case (Cons w2 ws2)
    with Cons.prems(2) consider "(a, b) = (w, w2)" | "(a, b) \<in> set (zip ws (tl ws))"
      by auto
    then show ?thesis
    proof cases
      case 1
      with Cons.prems(1) Cons show ?thesis by auto
    next
      case 2
      from Cons.prems(1) have "sorted ws" by simp
      from Cons.IH[OF this 2] Cons.prems(1) Cons show ?thesis by auto
    qed
  qed
qed

lemma sorted_pairs_ordered:
  assumes "sorted ws"
  shows "sorted_wrt (\<lambda>(a, b) (a', b'). b \<le> a') (zip ws (tl ws))"
  using assms
proof (induction ws)
  case Nil
  show ?case by simp
next
  case (Cons w ws)
  show ?case
  proof (cases ws)
    case Nil
    then show ?thesis by simp
  next
    case (Cons w2 ws2)
    from Cons.prems have sws: "sorted ws" by simp
    have "\<forall>(a', b') \<in> set (zip ws (tl ws)). w2 \<le> a'"
      using sorted_pairs_bounds[OF sws] Cons by auto
    with Cons.IH[OF sws] Cons show ?thesis by auto
  qed
qed

lemma sorted_pairs_cover:
  assumes "2 \<le> length ws" and "hd ws \<le> x" and "x \<le> last ws"
  shows "\<exists>(a, b) \<in> set (zip ws (tl ws)). a \<le> x \<and> x \<le> (b :: real)"
  using assms
proof (induction ws)
  case Nil
  then show ?case by simp
next
  case (Cons w ws)
  then obtain w2 ws2 where ws: "ws = w2 # ws2" by (cases ws) auto
  show ?case
  proof (cases "x \<le> w2")
    case True
    with Cons.prems(2) ws show ?thesis by auto
  next
    case False
    then have more: "2 \<le> length ws"
      using Cons.prems(3) ws by (cases ws2) auto
    from False Cons.prems(3) ws have "hd ws \<le> x" "x \<le> last ws" by auto
    from Cons.IH[OF more this] ws show ?thesis by auto
  qed
qed


subsection \<open>What a split curve looks like\<close>

lemma entry_split_whole:
  assumes recs: "records (db d) (fragments info) = [Some (Whole c, - 1, - 1, v)]"
    and info: "map_of (curve2info d) v = Some info"
  shows "\<exists>f it. fragments info = [f] \<and> map_of (items (db d)) f = Some it \<and>
           item_piece it = Whole c \<and> item_start it = - 1 \<and> item_stop it = - 1 \<and>
           item_owner it = v"
    and "fragment_ranges d v = [(- 1, - 1)]"
proof -
  from recs have "length (fragments info) = 1"
    unfolding records_def by (metis length_map length_Cons list.size(3) One_nat_def)
  then obtain f where f: "fragments info = [f]"
    by (cases "fragments info") simp_all
  with recs have "map_option provenance (map_of (items (db d)) f) = Some (Whole c, - 1, - 1, v)"
    by (simp add: records_def)
  then obtain it where it: "map_of (items (db d)) f = Some it"
    and "provenance it = (Whole c, - 1, - 1, v)"
    by auto
  then have "item_piece it = Whole c \<and> item_start it = - 1 \<and> item_stop it = - 1 \<and>
      item_owner it = v"
    by (simp add: provenance_def)
  with f it show "\<exists>f it. fragments info = [f] \<and> map_of (items (db d)) f = Some it \<and>
           item_piece it = Whole c \<and> item_start it = - 1 \<and> item_stop it = - 1 \<and>
           item_owner it = v"
    by blast
  from recs have "records (db d) (fragments info) = map Some [(Whole c, - 1, - 1, v)]" by simp
  from records_ranges[OF this] info show "fragment_ranges d v = [(- 1, - 1)]"
    by (simp add: fragment_ranges_def)
qed

lemma entry_split_ranges:
  assumes recs: "records (db d) (fragments info) = map (\<lambda>(a, b). Some (Trimmed c a b, a, b, v)) sp"
    and info: "map_of (curve2info d) v = Some info"
  shows "fragment_ranges d v = sp"
proof -
  from recs have "records (db d) (fragments info)
      = map Some (map (\<lambda>(a, b). (Trimmed c a b, a, b, v)) sp)"
    by (simp add: comp_def case_prod_unfold)
  from records_ranges[OF this] info show ?thesis
    by (simp add: fragment_ranges_def comp_def case_prod_unfold)
qed

lemma open_curve_spans:
  assumes so: "sorted ts" and dom: "\<forall>u \<in> set ts. TMin c \<le> u \<and> u \<le> TMax c"
    and ne: "ts \<noteq> []" and bo: "IsBounded c" "\<not> IsClosed c"
  shows "\<forall>(a, b) \<in> set (spans k (cut_parameters c ts)). TMin c \<le> a \<and> a \<le> b \<and> b \<le> TMax c"
    and "sorted_wrt (\<lambda>(a, b) (a', b'). b \<le> a') (spans k (cut_parameters c ts))"
    and "\<forall>x. TMin c \<le> x \<and> x \<le> TMax c \<longrightarrow>
           covered (spans k (cut_parameters c ts)) x \<or>
           (\<exists>(a, b) \<in> set (zip (cut_parameters c ts) (tl (cut_parameters c ts))).
              a \<le> x \<and> x \<le> b \<and> \<not> cuttable k a b)"
proof -
  let ?ws = "cut_parameters c ts"
  let ?pairs = "zip ?ws (tl ?ws)"
  have ws: "?ws = TMin c # ts @ [TMax c]" using bo by (simp add: cut_parameters_def)
  from ne obtain u where "u \<in> set ts" by (cases ts) auto
  with dom have le: "TMin c \<le> TMax c" by fastforce
  have sorted: "sorted ?ws" unfolding ws using so dom le by (auto simp: sorted_append)
  have ends: "hd ?ws = TMin c" "last ?ws = TMax c" "2 \<le> length ?ws" by (simp_all add: ws)
  have all_pairs: "zip (hd ?ws # ?ws) ?ws = (TMin c, TMin c) # ?pairs" by (simp add: ws)
  have sp: "spans k ?ws = filter (\<lambda>(a, b). cuttable k a b) ((TMin c, TMin c) # ?pairs)"
    by (simp only: spans_def all_pairs)
  have bounds: "TMin c \<le> a \<and> a \<le> b \<and> b \<le> TMax c" if "(a, b) \<in> set ?pairs" for a b
    using sorted_pairs_bounds[OF sorted that] ends by simp
  show "\<forall>(a, b) \<in> set (spans k ?ws). TMin c \<le> a \<and> a \<le> b \<and> b \<le> TMax c"
  proof (intro ballI, clarify)
    fix a b assume "(a, b) \<in> set (spans k ?ws)"
    then have "(a, b) \<in> set ((TMin c, TMin c) # ?pairs)"
      unfolding sp by (simp only: set_filter mem_Collect_eq)
    then have "(a, b) = (TMin c, TMin c) \<or> (a, b) \<in> set ?pairs"
      by (simp only: set_simps insert_iff)
    then show "TMin c \<le> a \<and> a \<le> b \<and> b \<le> TMax c" using bounds le by auto
  qed
  have "sorted_wrt (\<lambda>(a, b) (a', b'). b \<le> a') ((TMin c, TMin c) # ?pairs)"
    using sorted_pairs_ordered[OF sorted] bounds by auto
  then show "sorted_wrt (\<lambda>(a, b) (a', b'). b \<le> a') (spans k ?ws)"
    unfolding sp by (rule sorted_wrt_filter)
  show "\<forall>x. TMin c \<le> x \<and> x \<le> TMax c \<longrightarrow>
           covered (spans k ?ws) x \<or>
           (\<exists>(a, b) \<in> set ?pairs. a \<le> x \<and> x \<le> b \<and> \<not> cuttable k a b)"
  proof (intro allI impI)
    fix x assume "TMin c \<le> x \<and> x \<le> TMax c"
    then have "hd ?ws \<le> x" "x \<le> last ?ws" using ends by simp_all
    from sorted_pairs_cover[OF ends(3) this] obtain a b where
      mem: "(a, b) \<in> set ?pairs" and in_span: "a \<le> x" "x \<le> b" by auto
    show "covered (spans k ?ws) x \<or>
           (\<exists>(a, b) \<in> set ?pairs. a \<le> x \<and> x \<le> b \<and> \<not> cuttable k a b)"
    proof (cases "cuttable k a b")
      case True
      with mem have "(a, b) \<in> set (spans k ?ws)"
        unfolding sp by (simp only: set_filter mem_Collect_eq set_simps insert_iff case_prod_conv simp_thms)
      with in_span have "covered (spans k ?ws) x" unfolding covered_def by blast
      then show ?thesis ..
    next
      case False
      with mem in_span show ?thesis by blast
    qed
  qed
qed



lemma cross_kernel_within: "crosses_within cross_kernel"
  unfolding crosses_within_def
proof (intro allI impI ballI)
  fix c all x
  assume kn: "known cross_kernel c" and x: "x \<in> set (all_crosses cross_kernel c all)"
  from cross_kernel_known[OF kn] have c: "c = segment 10 \<or> c = segment 20 \<or> c = circle 30" .
  then have "contour_crosses c = []"
    by (auto simp: contour_crosses_def segment_def circle_def)
  with x have "x \<in> set (IntersectWithAll cross_kernel c all)"
    by (simp add: all_crosses_def)
  with c show "TMin c \<le> t (on1 x) \<and> t (on1 x) \<le> TMax c"
    unfolding cross_kernel_intersect
    by (auto simp: cross_at_def segment_def circle_def split: if_splits)
qed

lemma crossed_db_run: "run cross_kernel [Add 1, Add 2] empty_db = Inr crossed_db"
  by code_simp


end
